theory Spec2Isabelle
  imports Main
begin

section \<open>Prow jobs (package \<open>prow/kube\<close>, used by \<open>prow/pjutil/abort.go\<close>)\<close>

text \<open>
  Modelled from the spec: the declaration of \<open>prowapi.ProwJob\<close> is not part of the
  sources at hand; \<open>abort.go\<close> only reads and writes the fields below. The spec's data
  model gives a job record a job name, a job kind (presubmit or other), a target identity
  (organization, repository, pull-request numbers), a start timestamp, a completion flag,
  a lifecycle state and the name used by the persistence collaborator. The nesting
  (\<open>ObjectMeta\<close>, \<open>Spec\<close>, \<open>Spec.Refs\<close>, \<open>Status\<close>) follows the field paths that
  \<open>abort.go\<close> writes out.
\<close>

datatype ProwJobType = PresubmitJob | PostsubmitJob | PeriodicJob | BatchJob

datatype ProwJobState =
  TriggeredState | PendingState | SuccessState | FailureState | AbortedState | ErrorState

record Pull =
  Number :: int

record Refs =
  Org :: string
  Repo :: string
  Pulls :: "Pull list"

record ProwJobSpec =
  Type :: ProwJobType
  Job :: string
  Refs :: Refs

record ProwJobStatus =
  StartTime :: int
  Completed :: bool
  State :: ProwJobState

record ObjectMeta =
  Name :: string

record ProwJob =
  ObjectMeta :: ObjectMeta
  Spec :: ProwJobSpec
  Status :: ProwJobStatus

text \<open>
  Modelled from the spec: \<open>Complete\<close>, \<open>SetComplete\<close> and \<open>Time.Before\<close> are methods of
  the absent package. The spec has a completion flag that is read and set, and compares
  start timestamps with strict less-than.
\<close>

definition Complete :: "ProwJob \<Rightarrow> bool" where
  "Complete pj = Completed (Status pj)"

definition SetComplete :: "ProwJob \<Rightarrow> ProwJob" where
  "SetComplete pj = pj\<lparr>Status := (Status pj)\<lparr>Completed := True\<rparr>\<rparr>"

definition Before :: "int \<Rightarrow> int \<Rightarrow> bool" where
  "Before t u = (t < u)"

section \<open>The aborter (\<open>prow/pjutil/abort.go\<close>)\<close>

text \<open>A Go \<open>error\<close> value is its message; \<open>nil\<close> is \<open>None\<close>.\<close>

type_synonym error = string

text \<open>
  The collaborators are effectful: the cleanup callback and the client's
  \<open>ReplaceProwJob\<close> take the state of the outside world \<open>'w\<close> and return the new one.
\<close>

type_synonym 'w ProwJobResourcesCleanupFn = "ProwJob \<Rightarrow> 'w \<Rightarrow> error option \<times> 'w"

type_synonym 'w prowClient = "string \<Rightarrow> ProwJob \<Rightarrow> 'w \<Rightarrow> (error + ProwJob) \<times> 'w"

record jobIndentifier =
  job :: string
  organization :: string
  repository :: string
  pullRequest :: int

text \<open>
  What the aborter does to its collaborators, in order: the calls of the cleanup callback
  and of \<open>ReplaceProwJob\<close> with their answers, and the two log lines. The index in
  \<open>CleanupCall\<close> and \<open>ReplaceCall\<close> is the value of \<open>cancelIndex\<close> at the call; the
  collaborators do not see it.
\<close>

datatype event =
  CleanupCall nat ProwJob "error option"
| LogWarn error ProwJob
| LogInfo ProwJob ProwJobState ProwJobState
| ReplaceCall nat string ProwJob "error + ProwJob"

text \<open>
  The variables of \<open>TerminateOlderPresubmitJobs\<close> that outlive one iteration: the slice
  \<open>pjs\<close> (shared with the caller), the map \<open>dupes\<close>, the outside world and the events so
  far.
\<close>

record 'w aborter =
  pjs :: "ProwJob list"
  dupes :: "jobIndentifier \<rightharpoonup> nat"
  world :: 'w
  trace :: "event list"

text \<open>How a call ends: it returns an \<open>error\<close> (or \<open>nil\<close>), or an index is out of range.\<close>

datatype outcome = Returned "error option" | Panicked

text \<open>
  Lines 63 to 68. \<open>Pulls[0]\<close> on an empty slice panics: \<open>None\<close>.
\<close>

definition identifierOf :: "ProwJob \<Rightarrow> jobIndentifier option" where
  "identifierOf pj =
     (case Pulls (Refs (Spec pj)) of
        [] \<Rightarrow> None
      | p # _ \<Rightarrow>
          Some \<lparr>job = Job (Spec pj), organization = Org (Refs (Spec pj)),
                repository = Repo (Refs (Spec pj)), pullRequest = Number p\<rparr>)"

text \<open>
  One iteration of the loop of lines 58 to 98, for the index \<open>i\<close> and the element
  \<open>pj\<close> that \<open>range\<close> reads from the slice at that moment. The first component of the
  result is \<open>None\<close> when the loop goes on (\<open>continue\<close>, or the end of the body) and the
  way the call ends otherwise. Reading \<open>pjs[prev]\<close> out of range panics. \<open>toCancel\<close> is a
  copy: the slice changes at line 97 only.
\<close>

definition iteration ::
  "'w ProwJobResourcesCleanupFn \<Rightarrow> 'w prowClient \<Rightarrow> nat \<Rightarrow> 'w aborter
     \<Rightarrow> outcome option \<times> 'w aborter" where
  "iteration cleanup ReplaceProwJob i s =
     (let pj = pjs s ! i in
      if Complete pj \<or> Type (Spec pj) \<noteq> PresubmitJob then (None, s)
      else
        case identifierOf pj of
          None \<Rightarrow> (Some Panicked, s)
        | Some ji \<Rightarrow>
            (case dupes s ji of
               None \<Rightarrow> (None, s\<lparr>dupes := (dupes s)(ji \<mapsto> i)\<rparr>)
             | Some prev \<Rightarrow>
                 if \<not> prev < length (pjs s) then (Some Panicked, s)
                 else
                   let older = Before (StartTime (Status (pjs s ! prev))) (StartTime (Status pj));
                       cancelIndex = (if older then prev else i);
                       s1 = (if older then s\<lparr>dupes := (dupes s)(ji \<mapsto> i)\<rparr> else s);
                       toCancel = pjs s1 ! cancelIndex;
                       (err, w1) = cleanup toCancel (world s1);
                       s2 = s1\<lparr>world := w1,
                               trace := trace s1 @ [CleanupCall cancelIndex toCancel err]\<rparr>;
                       s3 = (case err of
                               None \<Rightarrow> s2
                             | Some e \<Rightarrow> s2\<lparr>trace := trace s2 @ [LogWarn e toCancel]\<rparr>);
                       toCancel1 = SetComplete toCancel;
                       prevState = State (Status toCancel1);
                       toCancel2 = toCancel1\<lparr>Status := (Status toCancel1)\<lparr>State := AbortedState\<rparr>\<rparr>;
                       s4 = s3\<lparr>trace := trace s3 @
                               [LogInfo toCancel2 prevState (State (Status toCancel2))]\<rparr>;
                       (res, w2) = ReplaceProwJob (Name (ObjectMeta toCancel2)) toCancel2 (world s4);
                       s5 = s4\<lparr>world := w2,
                               trace := trace s4 @
                                 [ReplaceCall cancelIndex (Name (ObjectMeta toCancel2)) toCancel2 res]\<rparr>
                   in case res of
                        Inl e \<Rightarrow> (Some (Returned (Some e)), s5)
                      | Inr npj \<Rightarrow> (None, s5\<lparr>pjs := (pjs s5)[cancelIndex := npj]\<rparr>)))"

text \<open>
  The loop: \<open>range\<close> fixes the number \<open>n\<close> of iterations when it starts. Falling out of
  the loop is \<open>return nil\<close>.
\<close>

function scan ::
  "'w ProwJobResourcesCleanupFn \<Rightarrow> 'w prowClient \<Rightarrow> nat \<Rightarrow> nat \<Rightarrow> 'w aborter
     \<Rightarrow> outcome \<times> 'w aborter" where
  "scan cleanup pjc n i s =
     (if i < n then
        (case iteration cleanup pjc i s of
           (None, s') \<Rightarrow> scan cleanup pjc n (Suc i) s'
         | (Some out, s') \<Rightarrow> (out, s'))
      else (Returned None, s))"
  by pat_completeness auto
termination
  by (relation "measure (\<lambda>(cleanup, pjc, n, i, s). n - i)") auto

definition TerminateOlderPresubmitJobs ::
  "'w ProwJobResourcesCleanupFn \<Rightarrow> 'w prowClient \<Rightarrow> ProwJob list \<Rightarrow> 'w
     \<Rightarrow> outcome \<times> 'w aborter" where
  "TerminateOlderPresubmitJobs cleanup pjc pjs0 w =
     scan cleanup pjc (length pjs0) 0 \<lparr>pjs = pjs0, dupes = Map.empty, world = w, trace = []\<rparr>"

section \<open>The skip plugin (\<open>prow/plugins/skip\<close>)\<close>

text \<open>
  Modelled from the spec: the handler of the skip plugin (\<open>handle\<close>, called by
  \<open>TestSkipStatus\<close> in \<open>skip_test.go\<close>) and the types of its arguments are not among the
  sources; only the test is. The records follow the spec's data model, with the field names
  of the test where it has them: a status context has a name, a state and a description; a
  presubmit definition has an optional flag, a trigger pattern, a rerun command and the
  context it reports; a comment event says whether it is on a pull request, the state of the
  issue, the action, the body, the pull-request number, the repository and the head commit.
\<close>

datatype StatusState = StatusSuccess | StatusFailure | StatusPending | StatusError



datatype GenericCommentEventAction =
  GenericCommentActionCreated | GenericCommentActionEdited | GenericCommentActionDeleted












section \<open>Vocabulary for the properties of the aborter\<close>

text \<open>
  The jobs that pass line 59: incomplete presubmit jobs.
\<close>

definition candidate :: "ProwJob \<Rightarrow> bool" where
  "candidate pj = (\<not> Complete pj \<and> Type (Spec pj) = PresubmitJob)"

text \<open>
  What lines 86 to 88 make of a record: completed, in state \<open>AbortedState\<close>.
\<close>

definition aborted :: "ProwJob \<Rightarrow> ProwJob" where
  "aborted pj = pj\<lparr>Status := (Status pj)\<lparr>Completed := True, State := AbortedState\<rparr>\<rparr>"

text \<open>
  The events of lines 79 to 93 for the slot \<open>ci\<close> holding \<open>pj\<close>: the cleanup call with its answer, the
  warning when the answer is an error, the state log line, and the call of
  \<open>ReplaceProwJob\<close> with its answer.
\<close>

definition block :: "nat \<Rightarrow> ProwJob \<Rightarrow> error option \<Rightarrow> error + ProwJob \<Rightarrow> event list" where
  "block ci pj err res =
     CleanupCall ci pj err #
     (case err of None \<Rightarrow> [] | Some e \<Rightarrow> [LogWarn e pj]) @
     [LogInfo (aborted pj) (State (Status pj)) AbortedState,
      ReplaceCall ci (Name (ObjectMeta pj)) (aborted pj) res]"

text \<open>
  A trace made of such groups of events and nothing else.
\<close>

definition blocks :: "(nat \<times> ProwJob \<times> error option \<times> (error + ProwJob)) list \<Rightarrow> event list" where
  "blocks bs = concat (map (\<lambda>(ci, pj, err, res). block ci pj err res) bs)"

text \<open>
  The job at index \<open>j\<close> of the input is an incomplete presubmit job with identity key \<open>k\<close>.
\<close>

definition inGroup :: "ProwJob list \<Rightarrow> jobIndentifier \<Rightarrow> nat \<Rightarrow> bool" where
  "inGroup ps k j = (j < length ps \<and> candidate (ps ! j) \<and> identifierOf (ps ! j) = Some k)"

definition startOf :: "ProwJob list \<Rightarrow> nat \<Rightarrow> int" where
  "startOf ps j = StartTime (Status (ps ! j))"

text \<open>
  Among the jobs with key \<open>k\<close> at the indices below \<open>i\<close>, the job at \<open>j\<close> started last, and
  first in the input among those that started at the same time.
\<close>

definition retainedUpTo :: "ProwJob list \<Rightarrow> nat \<Rightarrow> jobIndentifier \<Rightarrow> nat \<Rightarrow> bool" where
  "retainedUpTo ps i k j =
     (inGroup ps k j \<and> j < i \<and>
      (\<forall>j'<i. inGroup ps k j' \<longrightarrow>
         startOf ps j' < startOf ps j \<or> (startOf ps j' = startOf ps j \<and> j \<le> j')))"

text \<open>
  The calls of the cleanup callback in a trace (slot and record), and those of
  \<open>ReplaceProwJob\<close> (slot, name, record and answer); \<open>cancelled\<close> lists the slots for which
  \<open>ReplaceProwJob\<close> was called.
\<close>

fun cleanupCalls :: "event list \<Rightarrow> (nat \<times> ProwJob) list" where
  "cleanupCalls [] = []"
| "cleanupCalls (CleanupCall j pj err # tr) = (j, pj) # cleanupCalls tr"
| "cleanupCalls (_ # tr) = cleanupCalls tr"

fun replaceCalls :: "event list \<Rightarrow> (nat \<times> string \<times> ProwJob \<times> (error + ProwJob)) list" where
  "replaceCalls [] = []"
| "replaceCalls (ReplaceCall j name pj res # tr) = (j, name, pj, res) # replaceCalls tr"
| "replaceCalls (_ # tr) = replaceCalls tr"

definition cancelled :: "event list \<Rightarrow> nat list" where
  "cancelled tr = map fst (replaceCalls tr)"

text \<open>
  A trace replayed against the collaborators from the outside world \<open>w\<close>: every cleanup
  call and every call of \<open>ReplaceProwJob\<close> in it, in order, is an application of the
  callback or of the client to the record (and name) of the event in the world the
  previous calls left, and gives the answer of the event; the result is the world after
  the last call, \<open>None\<close> when an event is not such an application.
\<close>

fun answered ::
  "'w ProwJobResourcesCleanupFn \<Rightarrow> 'w prowClient \<Rightarrow> 'w \<Rightarrow> event list \<Rightarrow> 'w option" where
  "answered cleanup pjc w [] = Some w"
| "answered cleanup pjc w (CleanupCall j pj err # tr) =
     (case cleanup pj w of
        (err', w') \<Rightarrow> if err' = err then answered cleanup pjc w' tr else None)"
| "answered cleanup pjc w (ReplaceCall j name pj res # tr) =
     (case pjc name pj w of
        (res', w') \<Rightarrow> if res' = res then answered cleanup pjc w' tr else None)"
| "answered cleanup pjc w (LogWarn e pj # tr) = answered cleanup pjc w tr"
| "answered cleanup pjc w (LogInfo pj from to # tr) = answered cleanup pjc w tr"

text \<open>
  A trace without its warnings and with every cleanup call answered \<open>nil\<close>; a callback
  with the same effect on the outside world that reports no error.
\<close>

fun silence :: "event list \<Rightarrow> event list" where
  "silence [] = []"
| "silence (CleanupCall j pj err # tr) = CleanupCall j pj None # silence tr"
| "silence (LogWarn e pj # tr) = silence tr"
| "silence (ev # tr) = ev # silence tr"

definition succeeding :: "'w ProwJobResourcesCleanupFn \<Rightarrow> 'w ProwJobResourcesCleanupFn" where
  "succeeding cleanup = (\<lambda>pj w. (None, snd (cleanup pj w)))"

text \<open>
  Two records that differ at most in their state; two states of the aborter that differ
  at most in the states of the jobs in the slice, in the log lines and in the records
  given to the cleanup callback.
\<close>

definition sameButState :: "ProwJob \<Rightarrow> ProwJob \<Rightarrow> bool" where
  "sameButState a b =
     (ObjectMeta a = ObjectMeta b \<and> Spec a = Spec b \<and>
      StartTime (Status a) = StartTime (Status b) \<and>
      Completed (Status a) = Completed (Status b))"

definition alike :: "'w aborter \<Rightarrow> 'w aborter \<Rightarrow> bool" where
  "alike s s' =
     (list_all2 sameButState (pjs s) (pjs s') \<and> dupes s' = dupes s \<and> world s' = world s \<and>
      replaceCalls (trace s') = replaceCalls (trace s) \<and>
      map fst (cleanupCalls (trace s')) = map fst (cleanupCalls (trace s)))"

text \<open>
  The loop invariant before the iteration for index \<open>i\<close>, for the input \<open>ps\<close>: the slice has
  its length; \<open>dupes\<close> holds, for each key seen, the retained job; and the slots not yet
  reached and the retained ones are as in the input.
\<close>

definition scanned :: "ProwJob list \<Rightarrow> nat \<Rightarrow> 'w aborter \<Rightarrow> bool" where
  "scanned ps i s =
     (length (pjs s) = length ps \<and>
      (\<forall>k j. dupes s k = Some j \<longrightarrow> retainedUpTo ps i k j) \<and>
      (\<forall>k. dupes s k = None \<longrightarrow> (\<forall>j<i. \<not> inGroup ps k j)) \<and>
      (\<forall>j<length ps. i \<le> j \<or> (\<exists>k. dupes s k = Some j) \<longrightarrow> pjs s ! j = ps ! j))"

text \<open>
  The second part of the invariant: \<open>ReplaceProwJob\<close> was called once for each incomplete
  presubmit job below \<open>i\<close> that \<open>dupes\<close> does not retain, for its aborted copy, and the slot
  holds the answer; the cleanup callback was called for the same slots in the same order;
  the other slots are as in the input.
\<close>

definition recorded :: "ProwJob list \<Rightarrow> nat \<Rightarrow> 'w aborter \<Rightarrow> bool" where
  "recorded ps i s =
     (distinct (cancelled (trace s)) \<and>
      set (cancelled (trace s)) = {j. j < i \<and> candidate (ps ! j) \<and> (\<forall>k. dupes s k \<noteq> Some j)} \<and>
      (\<forall>j<length ps. j \<notin> set (cancelled (trace s)) \<longrightarrow> pjs s ! j = ps ! j) \<and>
      replaceCalls (trace s) =
        map (\<lambda>j. (j, Name (ObjectMeta (ps ! j)), aborted (ps ! j), Inr (pjs s ! j)))
          (cancelled (trace s)) \<and>
      cleanupCalls (trace s) = map (\<lambda>j. (j, ps ! j)) (cancelled (trace s)))"

text \<open>
  What holds of the final state however the call ends.
\<close>

definition settled :: "ProwJob list \<Rightarrow> 'w aborter \<Rightarrow> bool" where
  "settled ps t =
     (length (pjs t) = length ps \<and>
      distinct (cancelled (trace t)) \<and>
      (\<forall>j. j \<in> set (cancelled (trace t)) \<longrightarrow> j < length ps \<and> candidate (ps ! j)) \<and>
      cleanupCalls (trace t) = map (\<lambda>j. (j, ps ! j)) (cancelled (trace t)) \<and>
      map (\<lambda>(j, name, arg, res). (j, name, arg)) (replaceCalls (trace t)) =
        map (\<lambda>j. (j, Name (ObjectMeta (ps ! j)), aborted (ps ! j))) (cancelled (trace t)) \<and>
      (\<forall>j. j < length ps \<longrightarrow> j \<notin> set (cancelled (trace t)) \<longrightarrow> pjs t ! j = ps ! j) \<and>
      (\<forall>k j. dupes t k = Some j \<longrightarrow> inGroup ps k j))"

section \<open>Example inputs of the aborter\<close>

text \<open>
  An incomplete presubmit job of pull request 1, and a list of four jobs with the same
  identity key, the first of them complete; the same list with every job in state
  \<open>FailureState\<close>; two jobs that started at the same time.
\<close>

definition examplePresubmit :: "string \<Rightarrow> int \<Rightarrow> ProwJob" where
  "examplePresubmit name start =
     \<lparr>ObjectMeta = \<lparr>Name = name\<rparr>,
      Spec = \<lparr>Type = PresubmitJob, Job = ''unit'',
              Refs = \<lparr>Org = ''org'', Repo = ''repo'', Pulls = [\<lparr>Number = 1\<rparr>]\<rparr>\<rparr>,
      Status = \<lparr>StartTime = start, Completed = False, State = PendingState\<rparr>\<rparr>"

definition exampleJobs :: "ProwJob list" where
  "exampleJobs =
     [SetComplete (examplePresubmit ''done'' 9),
      examplePresubmit ''first'' 5,
      examplePresubmit ''second'' 7,
      examplePresubmit ''third'' 6]"

definition exampleJobsFailing :: "ProwJob list" where
  "exampleJobsFailing =
     map (\<lambda>pj. pj\<lparr>Status := (Status pj)\<lparr>State := FailureState\<rparr>\<rparr>) exampleJobs"

definition tiedJobs :: "ProwJob list" where
  "tiedJobs = [examplePresubmit ''early'' 5, examplePresubmit ''late'' 5]"

text \<open>
  Collaborators: a cleanup callback that succeeds and one that fails; a client that
  stores what it is given and counts the writes, and one that fails from the second write
  on.
\<close>

definition cleanupOk :: "nat ProwJobResourcesCleanupFn" where
  "cleanupOk = (\<lambda>pj w. (None, w))"

definition cleanupBroken :: "nat ProwJobResourcesCleanupFn" where
  "cleanupBroken = (\<lambda>pj w. (Some ''pod not found'', w))"

definition storeOk :: "nat prowClient" where
  "storeOk = (\<lambda>name pj w. (Inr pj, Suc w))"

definition storeOnce :: "nat prowClient" where
  "storeOnce = (\<lambda>name pj w. if w = 0 then (Inr pj, Suc w) else (Inl ''conflict'', w))"

section \<open>Example inputs of the skip plugin\<close>
















section \<open>Properties of the aborter\<close>

declare scan.simps [simp del]

lemma iteration_skip:
  "\<not> candidate (pjs s ! i) \<Longrightarrow> iteration c p i s = (None, s)"
  by (auto simp: iteration_def candidate_def Let_def)

lemma iteration_nopull:
  "candidate (pjs s ! i) \<Longrightarrow> identifierOf (pjs s ! i) = None \<Longrightarrow>
   iteration c p i s = (Some Panicked, s)"
  by (simp add: iteration_def candidate_def Let_def)

lemma iteration_first:
  "candidate (pjs s ! i) \<Longrightarrow> identifierOf (pjs s ! i) = Some k \<Longrightarrow> dupes s k = None \<Longrightarrow>
   iteration c p i s = (None, s\<lparr>dupes := (dupes s)(k \<mapsto> i)\<rparr>)"
  by (simp add: iteration_def candidate_def Let_def)

lemma iteration_range:
  "candidate (pjs s ! i) \<Longrightarrow> identifierOf (pjs s ! i) = Some k \<Longrightarrow> dupes s k = Some prev \<Longrightarrow>
   \<not> prev < length (pjs s) \<Longrightarrow> iteration c p i s = (Some Panicked, s)"
  by (simp add: iteration_def candidate_def Let_def)

lemma iteration_repeat:
  assumes "candidate (pjs s ! i)" and "identifierOf (pjs s ! i) = Some k"
    and "dupes s k = Some prev" and "prev < length (pjs s)"
    and "iteration c p i s = (r, t)"
  obtains ci err w1 res w2 where
    "ci = (if StartTime (Status (pjs s ! prev)) < StartTime (Status (pjs s ! i)) then prev else i)"
    "c (pjs s ! ci) (world s) = (err, w1)"
    "p (Name (ObjectMeta (pjs s ! ci))) (aborted (pjs s ! ci)) w1 = (res, w2)"
    "trace t = trace s @ block ci (pjs s ! ci) err res"
    "world t = w2"
    "dupes t = (if ci = i then dupes s else (dupes s)(k \<mapsto> i))"
    "pjs t = (case res of Inl e \<Rightarrow> pjs s | Inr npj \<Rightarrow> (pjs s)[ci := npj])"
    "r = (case res of Inl e \<Rightarrow> Some (Returned (Some e)) | Inr npj \<Rightarrow> None)"
proof -
  define ci where "ci = (if StartTime (Status (pjs s ! prev)) < StartTime (Status (pjs s ! i)) then prev else i)"
  obtain err w1 where c: "c (pjs s ! ci) (world s) = (err, w1)"
    by (cases "c (pjs s ! ci) (world s)")
  obtain res w2 where p: "p (Name (ObjectMeta (pjs s ! ci))) (aborted (pjs s ! ci)) w1 = (res, w2)"
    by (cases "p (Name (ObjectMeta (pjs s ! ci))) (aborted (pjs s ! ci)) w1")
  have ab: "\<And>pj. (SetComplete pj)\<lparr>Status := (Status (SetComplete pj))\<lparr>State := AbortedState\<rparr>\<rparr> = aborted pj"
    by (simp add: SetComplete_def aborted_def)
  have nm: "\<And>pj. Name (ObjectMeta (SetComplete pj)) = Name (ObjectMeta pj)"
      "\<And>pj. Name (ObjectMeta (aborted pj)) = Name (ObjectMeta pj)"
    by (simp_all add: SetComplete_def aborted_def)
  have st: "\<And>pj. State (Status (SetComplete pj)) = State (Status pj)"
    by (simp add: SetComplete_def)
  have st2: "\<And>pj. State (Status (aborted pj)) = AbortedState"
    by (simp add: aborted_def)
  define d where "d = (if ci = i then dupes s else (dupes s)(k \<mapsto> i))"
  have eq: "iteration c p i s =
      (case res of
         Inl e \<Rightarrow> (Some (Returned (Some e)),
                    s\<lparr>dupes := d, world := w2, trace := trace s @ block ci (pjs s ! ci) err res\<rparr>)
       | Inr npj \<Rightarrow> (None,
                    s\<lparr>dupes := d, world := w2, trace := trace s @ block ci (pjs s ! ci) err res,
                      pjs := (pjs s)[ci := npj]\<rparr>))"
  proof (cases "StartTime (Status (pjs s ! prev)) < StartTime (Status (pjs s ! i))")
    case True
    then have ci: "ci = prev" and ne: "prev \<noteq> i" by (auto simp: ci_def)
    show ?thesis
      using assms(1-4) True c p ne unfolding ci d_def
      by (simp add: iteration_def candidate_def Let_def Before_def ab nm st st2 block_def
          split: option.splits sum.splits)
  next
    case False
    then have ci: "ci = i" by (simp add: ci_def)
    show ?thesis
      using assms(1-4) False c p unfolding ci d_def
      by (simp add: iteration_def candidate_def Let_def Before_def ab nm st st2 block_def
          split: option.splits sum.splits)
  qed
  have "trace t = trace s @ block ci (pjs s ! ci) err res \<and> world t = w2
      \<and> dupes t = d
      \<and> pjs t = (case res of Inl e \<Rightarrow> pjs s | Inr npj \<Rightarrow> (pjs s)[ci := npj])
      \<and> r = (case res of Inl e \<Rightarrow> Some (Returned (Some e)) | Inr npj \<Rightarrow> None)"
    using assms(5) unfolding eq by (auto split: sum.splits)
  with that [OF ci_def c p] show ?thesis unfolding d_def by blast
qed

lemma iteration_cases:
  assumes "iteration c p i s = (r, t)"
  obtains (skip) "\<not> candidate (pjs s ! i)" "r = None" "t = s"
  | (nopull) "candidate (pjs s ! i)" "identifierOf (pjs s ! i) = None" "r = Some Panicked" "t = s"
  | (first) k where "candidate (pjs s ! i)" "identifierOf (pjs s ! i) = Some k" "dupes s k = None"
      "r = None" "t = s\<lparr>dupes := (dupes s)(k \<mapsto> i)\<rparr>"
  | (range) k prev where "candidate (pjs s ! i)" "identifierOf (pjs s ! i) = Some k"
      "dupes s k = Some prev" "\<not> prev < length (pjs s)" "r = Some Panicked" "t = s"
  | (repeat) k prev where "candidate (pjs s ! i)" "identifierOf (pjs s ! i) = Some k"
      "dupes s k = Some prev" "prev < length (pjs s)"
proof (cases "candidate (pjs s ! i)")
  case False
  have "(r, t) = (None, s)" using assms False by (simp add: iteration_skip)
  then show ?thesis using False by (intro skip) simp_all
next
  case cand: True
  show ?thesis
  proof (cases "identifierOf (pjs s ! i)")
    case None
    have "(r, t) = (Some Panicked, s)" using assms cand None by (simp add: iteration_nopull)
    then show ?thesis using cand None by (intro nopull) simp_all
  next
    case (Some k)
    show ?thesis
    proof (cases "dupes s k")
      case None
      have "(r, t) = (None, s\<lparr>dupes := (dupes s)(k \<mapsto> i)\<rparr>)"
        using assms cand Some None by (simp add: iteration_first)
      then show ?thesis using cand Some None by (intro first [of k]) simp_all
    next
      case prev: (Some prev)
      show ?thesis
      proof (cases "prev < length (pjs s)")
        case True
        show ?thesis by (rule repeat [OF cand Some prev True])
      next
        case False
        have "(r, t) = (Some Panicked, s)"
          using assms cand Some prev False by (simp add: iteration_range)
        then show ?thesis using cand Some prev False by (intro range [of k prev]) simp_all
      qed
    qed
  qed
qed

lemma scan_rule:
  assumes "scan c p n i s = (out, t)" and "P i s" and "i \<le> n"
    and "\<And>i s s'. i < n \<Longrightarrow> P i s \<Longrightarrow> iteration c p i s = (None, s') \<Longrightarrow> P (Suc i) s'"
  shows "(out = Returned None \<and> P n t) \<or>
         (\<exists>j u. j < n \<and> P j u \<and> iteration c p j u = (Some out, t))"
  using assms
proof (induction c p n i s rule: scan.induct)
  case (1 c p n i s)
  note step = "1.prems"(4)
  show ?case
  proof (cases "i < n")
    case False
    with "1.prems"(1-3) show ?thesis by (auto simp: scan.simps [of _ _ n i])
  next
    case True
    obtain r s' where it: "iteration c p i s = (r, s')"
      by (cases "iteration c p i s")
    show ?thesis
    proof (cases r)
      case None
      have run: "scan c p n (Suc i) s' = (out, t)"
        using "1.prems"(1) True it None by (simp add: scan.simps [of _ _ n i])
      have P: "P (Suc i) s'"
        using step [OF True "1.prems"(2)] it None by simp
      show ?thesis
        using "1.IH" [OF True it [symmetric, unfolded None] refl run P _ step] True
        by simp
    next
      case (Some o')
      then have "out = o'" "t = s'"
        using "1.prems"(1) True it by (simp_all add: scan.simps [of _ _ n i])
      then show ?thesis using True "1.prems"(2) it Some by blast
    qed
  qed
qed

lemma inGroup_key: "inGroup ps k j \<Longrightarrow> inGroup ps k' j \<Longrightarrow> k' = k"
  by (simp add: inGroup_def)

lemma retained_other:
  "\<not> inGroup ps k i \<Longrightarrow> retainedUpTo ps i k j \<Longrightarrow> retainedUpTo ps (Suc i) k j"
  by (auto simp: retainedUpTo_def less_Suc_eq)

lemma retained_first:
  "inGroup ps k i \<Longrightarrow> \<forall>j<i. \<not> inGroup ps k j \<Longrightarrow> retainedUpTo ps (Suc i) k i"
  by (auto simp: retainedUpTo_def less_Suc_eq)

lemma retained_newer:
  "retainedUpTo ps i k prev \<Longrightarrow> inGroup ps k i \<Longrightarrow> startOf ps prev < startOf ps i \<Longrightarrow>
   retainedUpTo ps (Suc i) k i"
  by (fastforce simp: retainedUpTo_def less_Suc_eq)

lemma retained_keep:
  "retainedUpTo ps i k prev \<Longrightarrow> \<not> startOf ps prev < startOf ps i \<Longrightarrow>
   retainedUpTo ps (Suc i) k prev"
  by (fastforce simp: retainedUpTo_def less_Suc_eq)

lemma retained_unique:
  "retainedUpTo ps i k j \<Longrightarrow> retainedUpTo ps i k j' \<Longrightarrow> j' = j"
  by (fastforce simp: retainedUpTo_def)

lemma scanned_read:
  "scanned ps i s \<Longrightarrow> i \<le> j \<Longrightarrow> j < length ps \<Longrightarrow> pjs s ! j = ps ! j"
  by (simp add: scanned_def)

lemma scanned_retained:
  "scanned ps i s \<Longrightarrow> dupes s k = Some j \<Longrightarrow> retainedUpTo ps i k j"
  by (simp add: scanned_def)

lemma scanned_prev:
  assumes "scanned ps i s" and "dupes s k = Some j"
  shows "j < i" and "j < length ps" and "inGroup ps k j" and "pjs s ! j = ps ! j"
proof -
  from assms have r: "retainedUpTo ps i k j" by (rule scanned_retained)
  then show "j < i" "inGroup ps k j" by (simp_all add: retainedUpTo_def)
  then show "j < length ps" by (simp add: inGroup_def)
  with assms show "pjs s ! j = ps ! j" unfolding scanned_def by blast
qed

lemma scanned_step:
  assumes inv: "scanned ps i s" and i: "i < length ps"
    and it: "iteration c p i s = (None, s')"
  shows "scanned ps (Suc i) s'"
proof -
  have len: "length (pjs s) = length ps" using inv by (simp add: scanned_def)
  have rd: "pjs s ! i = ps ! i" using inv i by (simp add: scanned_read)
  have none: "\<And>k j. dupes s k = None \<Longrightarrow> j < i \<Longrightarrow> \<not> inGroup ps k j"
    using inv by (simp add: scanned_def)
  show ?thesis
  proof (cases "candidate (ps ! i)")
    case False
    then have "s' = s" using it rd by (simp add: iteration_skip)
    moreover have "\<And>k. \<not> inGroup ps k i" using False by (simp add: inGroup_def)
    ultimately show ?thesis
      using inv unfolding scanned_def
      by (auto simp: retained_other less_Suc_eq)
  next
    case cand: True
    then obtain k where k: "identifierOf (ps ! i) = Some k"
      using it rd by (cases "identifierOf (ps ! i)") (auto simp: iteration_nopull)
    have grp: "inGroup ps k i" using cand k i by (simp add: inGroup_def)
    have other: "\<And>k'. k' \<noteq> k \<Longrightarrow> \<not> inGroup ps k' i"
      using grp inGroup_key by blast
    show ?thesis
    proof (cases "dupes s k")
      case None
      then have s': "s' = s\<lparr>dupes := (dupes s)(k \<mapsto> i)\<rparr>"
        using it rd cand k by (simp add: iteration_first)
      have a: "retainedUpTo ps (Suc i) k i"
        using grp none [OF None] by (simp add: retained_first)
      have b: "\<And>k' j. k' \<noteq> k \<Longrightarrow> dupes s k' = Some j \<Longrightarrow> retainedUpTo ps (Suc i) k' j"
        using other scanned_retained [OF inv] by (simp add: retained_other)
      have c: "\<And>k' j. dupes s k' = None \<Longrightarrow> k' \<noteq> k \<Longrightarrow> j < Suc i \<Longrightarrow> \<not> inGroup ps k' j"
        using none other by (auto simp: less_Suc_eq)
      have d: "\<And>j. j < length ps \<Longrightarrow> Suc i \<le> j \<Longrightarrow> pjs s ! j = ps ! j"
        "\<And>j k'. j < length ps \<Longrightarrow> dupes s k' = Some j \<Longrightarrow> pjs s ! j = ps ! j"
        using inv unfolding scanned_def by (metis Suc_leD, blast)
      show ?thesis unfolding scanned_def s'
        using len a b c d rd by (auto split: if_splits)
    next
      case (Some prev)
      note pv = scanned_prev [OF inv Some]
      have pl: "prev < length (pjs s)" using pv len by simp
      from iteration_repeat [OF _ _ Some pl it] cand k rd
      obtain ci err w1 res w2 where
        ci: "ci = (if StartTime (Status (pjs s ! prev)) < StartTime (Status (pjs s ! i)) then prev else i)"
        and d': "dupes s' = (if ci = i then dupes s else (dupes s)(k \<mapsto> i))"
        and p': "pjs s' = (case res of Inl e \<Rightarrow> pjs s | Inr npj \<Rightarrow> (pjs s)[ci := npj])"
        and r': "None = (case res of Inl e \<Rightarrow> Some (Returned (Some e)) | Inr npj \<Rightarrow> None)"
        by metis
      from r' obtain npj where res: "res = Inr npj" by (cases res) auto
      have len': "length (pjs s') = length ps" using p' res len by simp
      show ?thesis
      proof (cases "startOf ps prev < startOf ps i")
        case True
        then have cip: "ci = prev" and ne: "prev \<noteq> i"
          using ci rd pv(4) by (auto simp: startOf_def)
        have dd: "dupes s' = (dupes s)(k \<mapsto> i)" using d' cip ne by simp
        have pp: "pjs s' = (pjs s)[prev := npj]" using p' res cip by simp
        have a: "retainedUpTo ps (Suc i) k i"
          using retained_newer [OF scanned_retained [OF inv Some] grp True] .
        have b: "\<And>k' j. k' \<noteq> k \<Longrightarrow> dupes s k' = Some j \<Longrightarrow> retainedUpTo ps (Suc i) k' j"
          using other scanned_retained [OF inv] by (simp add: retained_other)
        have c: "\<And>k' j. dupes s k' = None \<Longrightarrow> k' \<noteq> k \<Longrightarrow> j < Suc i \<Longrightarrow> \<not> inGroup ps k' j"
          using none other by (auto simp: less_Suc_eq)
        have e: "\<And>k'. k' \<noteq> k \<Longrightarrow> dupes s k' \<noteq> Some prev"
          using scanned_prev(3) [OF inv] pv(3) inGroup_key by blast
        have d0: "\<And>j. j < length ps \<Longrightarrow> Suc i \<le> j \<Longrightarrow> pjs s ! j = ps ! j"
          "\<And>j k'. j < length ps \<Longrightarrow> dupes s k' = Some j \<Longrightarrow> pjs s ! j = ps ! j"
          using inv unfolding scanned_def by (metis Suc_leD, blast)
        have d: "\<And>j. j < length ps \<Longrightarrow> Suc i \<le> j \<Longrightarrow> pjs s' ! j = ps ! j"
          "\<And>j k'. j < length ps \<Longrightarrow> k' \<noteq> k \<Longrightarrow> dupes s k' = Some j \<Longrightarrow> pjs s' ! j = ps ! j"
          "pjs s' ! i = ps ! i"
        proof -
          fix j assume "j < length ps" "Suc i \<le> j"
          then show "pjs s' ! j = ps ! j" using d0(1) pv(1) by (simp add: pp)
        next
          fix j k' assume "j < length ps" "k' \<noteq> k" "dupes s k' = Some j"
          moreover from this have "j \<noteq> prev" using e by blast
          ultimately show "pjs s' ! j = ps ! j" using d0(2) by (simp add: pp)
        next
          show "pjs s' ! i = ps ! i" using rd ne by (simp add: pp)
        qed
        show ?thesis unfolding scanned_def dd
          using len' a b c d by (auto split: if_splits)
      next
        case False
        then have cii: "ci = i" using ci rd pv(4) by (auto simp: startOf_def)
        have dd: "dupes s' = dupes s" using d' cii by simp
        have pp: "pjs s' = (pjs s)[i := npj]" using p' res cii by simp
        have a: "retainedUpTo ps (Suc i) k prev"
          using retained_keep [OF scanned_retained [OF inv Some] False] .
        have b: "\<And>k' j. k' \<noteq> k \<Longrightarrow> dupes s k' = Some j \<Longrightarrow> retainedUpTo ps (Suc i) k' j"
          using other scanned_retained [OF inv] by (simp add: retained_other)
        have b': "\<And>k' j. dupes s k' = Some j \<Longrightarrow> retainedUpTo ps (Suc i) k' j"
          using a b Some by (metis option.inject)
        have c: "\<And>k' j. dupes s k' = None \<Longrightarrow> j < Suc i \<Longrightarrow> \<not> inGroup ps k' j"
          using none other Some by (metis less_Suc_eq option.distinct(1))
        have d: "\<And>j. j < length ps \<Longrightarrow> Suc i \<le> j \<or> (\<exists>k'. dupes s k' = Some j)
            \<Longrightarrow> pjs s' ! j = ps ! j"
        proof -
          fix j assume j: "j < length ps" and h: "Suc i \<le> j \<or> (\<exists>k'. dupes s k' = Some j)"
          have "j \<noteq> i" using h scanned_prev(1) [OF inv] by auto
          moreover have "pjs s ! j = ps ! j"
            using h j inv unfolding scanned_def by (metis Suc_leD)
          ultimately show "pjs s' ! j = ps ! j" by (simp add: pp)
        qed
        show ?thesis unfolding scanned_def dd
          using len' b' c d by blast
      qed
    qed
  qed
qed

lemma cleanupCalls_append: "cleanupCalls (tr @ tr') = cleanupCalls tr @ cleanupCalls tr'"
  by (induction tr rule: cleanupCalls.induct) simp_all

lemma replaceCalls_append: "replaceCalls (tr @ tr') = replaceCalls tr @ replaceCalls tr'"
  by (induction tr rule: replaceCalls.induct) simp_all

lemma replaceCalls_event:
  "(j, name, arg, res) \<in> set (replaceCalls tr) \<Longrightarrow> ReplaceCall j name arg res \<in> set tr"
  by (induction tr rule: replaceCalls.induct) auto

lemma cleanupCalls_block: "cleanupCalls (block ci pj err res) = [(ci, pj)]"
  by (simp add: block_def split: option.splits)

lemma replaceCalls_block:
  "replaceCalls (block ci pj err res) = [(ci, Name (ObjectMeta pj), aborted pj, res)]"
  by (simp add: block_def split: option.splits)

lemma cancelled_block: "cancelled (tr @ block ci pj err res) = cancelled tr @ [ci]"
  by (simp add: cancelled_def replaceCalls_append replaceCalls_block)

text \<open>The effect of an abort on the records, when the slot was not cancelled before.\<close>

lemma recorded_abort:
  assumes rec: "recorded ps i s" and len: "length (pjs s) = length ps"
    and ci: "ci < length ps" "ci \<notin> set (cancelled (trace s))"
    and tr: "trace s' = trace s @ block ci (ps ! ci) err (Inr npj)"
    and pj: "pjs s' = (pjs s)[ci := npj]"
    and set: "{j. j < i' \<and> candidate (ps ! j) \<and> (\<forall>k. dupes s' k \<noteq> Some j)} =
              insert ci {j. j < i \<and> candidate (ps ! j) \<and> (\<forall>k. dupes s k \<noteq> Some j)}"
  shows "recorded ps i' s'"
proof -
  have c': "cancelled (trace s') = cancelled (trace s) @ [ci]"
    by (simp add: tr cancelled_block)
  have old: "\<And>j. j \<in> set (cancelled (trace s)) \<Longrightarrow> pjs s' ! j = pjs s ! j"
  proof -
    fix j assume "j \<in> set (cancelled (trace s))"
    then have "ci \<noteq> j" using ci(2) by blast
    then show "pjs s' ! j = pjs s ! j" by (simp add: pj)
  qed
  have new: "pjs s' ! ci = npj" using ci(1) len by (simp add: pj)
  have 1: "distinct (cancelled (trace s'))" using rec ci(2) by (simp add: c' recorded_def)
  have 2: "set (cancelled (trace s')) = {j. j < i' \<and> candidate (ps ! j) \<and> (\<forall>k. dupes s' k \<noteq> Some j)}"
    using rec by (simp add: c' set recorded_def)
  have 3: "\<forall>j<length ps. j \<notin> set (cancelled (trace s')) \<longrightarrow> pjs s' ! j = ps ! j"
    using rec by (auto simp: c' pj recorded_def)
  have 4: "replaceCalls (trace s') =
        map (\<lambda>j. (j, Name (ObjectMeta (ps ! j)), aborted (ps ! j), Inr (pjs s' ! j)))
          (cancelled (trace s'))"
  proof -
    have "map (\<lambda>j. (j, Name (ObjectMeta (ps ! j)), aborted (ps ! j), Inr (pjs s' ! j)))
            (cancelled (trace s)) = replaceCalls (trace s)"
      using rec old by (simp add: recorded_def cong: map_cong)
    moreover have "replaceCalls (trace s') =
        replaceCalls (trace s) @ [(ci, Name (ObjectMeta (ps ! ci)), aborted (ps ! ci), Inr npj)]"
      by (simp add: tr replaceCalls_append replaceCalls_block)
    ultimately show ?thesis using new by (simp add: c')
  qed
  have 5: "cleanupCalls (trace s') = map (\<lambda>j. (j, ps ! j)) (cancelled (trace s'))"
    using rec by (simp add: tr cancelled_block cleanupCalls_append cleanupCalls_block recorded_def)
  show ?thesis unfolding recorded_def using 1 2 3 4 5 by blast
qed

lemma unretained_first:
  fixes d :: "'k \<rightharpoonup> nat"
  assumes "d k = None"
  shows "{j. j < Suc i \<and> P j \<and> (\<forall>k'. (d(k \<mapsto> i)) k' \<noteq> Some j)} =
         {j. j < i \<and> P j \<and> (\<forall>k'. d k' \<noteq> Some j)}"
proof (rule set_eqI)
  fix j
  have "(\<forall>k'. (d(k \<mapsto> i)) k' \<noteq> Some j) \<longleftrightarrow> j \<noteq> i \<and> (\<forall>k'. d k' \<noteq> Some j)"
  proof
    assume a: "\<forall>k'. (d(k \<mapsto> i)) k' \<noteq> Some j"
    from a [rule_format, of k] have "j \<noteq> i" by simp
    moreover have "d k' \<noteq> Some j" for k'
      using a [rule_format, of k'] assms by (cases "k' = k") simp_all
    ultimately show "j \<noteq> i \<and> (\<forall>k'. d k' \<noteq> Some j)" by blast
  next
    assume "j \<noteq> i \<and> (\<forall>k'. d k' \<noteq> Some j)"
    then show "\<forall>k'. (d(k \<mapsto> i)) k' \<noteq> Some j" by simp
  qed
  then show "j \<in> {j. j < Suc i \<and> P j \<and> (\<forall>k'. (d(k \<mapsto> i)) k' \<noteq> Some j)} \<longleftrightarrow>
             j \<in> {j. j < i \<and> P j \<and> (\<forall>k'. d k' \<noteq> Some j)}"
    using less_Suc_eq by auto
qed

lemma unretained_keep:
  fixes d :: "'k \<rightharpoonup> nat"
  assumes "\<And>k j. d k = Some j \<Longrightarrow> j < i" and "P i"
  shows "{j. j < Suc i \<and> P j \<and> (\<forall>k'. d k' \<noteq> Some j)} =
         insert i {j. j < i \<and> P j \<and> (\<forall>k'. d k' \<noteq> Some j)}"
proof (rule set_eqI)
  fix j
  have "\<forall>k'. d k' \<noteq> Some i" using assms(1) by blast
  then show "j \<in> {j. j < Suc i \<and> P j \<and> (\<forall>k'. d k' \<noteq> Some j)} \<longleftrightarrow>
             j \<in> insert i {j. j < i \<and> P j \<and> (\<forall>k'. d k' \<noteq> Some j)}"
    using assms(2) less_Suc_eq by auto
qed

lemma unretained_newer:
  fixes d :: "'k \<rightharpoonup> nat"
  assumes "d k = Some prev" and "prev < i" and "P prev"
    and "\<And>k'. k' \<noteq> k \<Longrightarrow> d k' \<noteq> Some prev"
  shows "{j. j < Suc i \<and> P j \<and> (\<forall>k'. (d(k \<mapsto> i)) k' \<noteq> Some j)} =
         insert prev {j. j < i \<and> P j \<and> (\<forall>k'. d k' \<noteq> Some j)}"
proof (rule set_eqI)
  fix j
  have "(\<forall>k'. (d(k \<mapsto> i)) k' \<noteq> Some j) \<longleftrightarrow> j \<noteq> i \<and> (j = prev \<or> (\<forall>k'. d k' \<noteq> Some j))"
  proof
    assume a: "\<forall>k'. (d(k \<mapsto> i)) k' \<noteq> Some j"
    from a [rule_format, of k] have "j \<noteq> i" by simp
    moreover have "d k' \<noteq> Some j" if "j \<noteq> prev" for k'
      using a [rule_format, of k'] assms(1) that by (cases "k' = k") simp_all
    ultimately show "j \<noteq> i \<and> (j = prev \<or> (\<forall>k'. d k' \<noteq> Some j))" by blast
  next
    assume b: "j \<noteq> i \<and> (j = prev \<or> (\<forall>k'. d k' \<noteq> Some j))"
    show "\<forall>k'. (d(k \<mapsto> i)) k' \<noteq> Some j"
    proof
      fix k'
      show "(d(k \<mapsto> i)) k' \<noteq> Some j"
        using b assms(4) [of k'] by (cases "k' = k") auto
    qed
  qed
  then show "j \<in> {j. j < Suc i \<and> P j \<and> (\<forall>k'. (d(k \<mapsto> i)) k' \<noteq> Some j)} \<longleftrightarrow>
             j \<in> insert prev {j. j < i \<and> P j \<and> (\<forall>k'. d k' \<noteq> Some j)}"
    using assms(2,3) less_Suc_eq by auto
qed

lemma recorded_fresh:
  assumes "recorded ps i s"
  shows "i \<le> j \<Longrightarrow> j \<notin> set (cancelled (trace s))"
    and "dupes s k = Some j \<Longrightarrow> j \<notin> set (cancelled (trace s))"
  using assms by (auto simp: recorded_def)

lemma recorded_step:
  assumes inv: "scanned ps i s" and rec: "recorded ps i s" and i: "i < length ps"
    and it: "iteration c p i s = (None, s')"
  shows "recorded ps (Suc i) s'"
proof -
  have len: "length (pjs s) = length ps" using inv by (simp add: scanned_def)
  have rd: "pjs s ! i = ps ! i" using inv i by (simp add: scanned_read)
  have below: "\<And>k j. dupes s k = Some j \<Longrightarrow> j < i"
    using scanned_prev(1) [OF inv] .
  show ?thesis
  proof (cases "candidate (ps ! i)")
    case False
    then have "s' = s" using it rd by (simp add: iteration_skip)
    moreover have "{j. j < Suc i \<and> candidate (ps ! j) \<and> (\<forall>k. dupes s k \<noteq> Some j)} =
        {j. j < i \<and> candidate (ps ! j) \<and> (\<forall>k. dupes s k \<noteq> Some j)}"
      using False by (auto simp: less_Suc_eq)
    ultimately show ?thesis using rec by (simp add: recorded_def)
  next
    case cand: True
    then obtain k where k: "identifierOf (ps ! i) = Some k"
      using it rd by (cases "identifierOf (ps ! i)") (auto simp: iteration_nopull)
    show ?thesis
    proof (cases "dupes s k")
      case None
      then have s': "s' = s\<lparr>dupes := (dupes s)(k \<mapsto> i)\<rparr>"
        using it rd cand k by (simp add: iteration_first)
      have "{j. j < Suc i \<and> candidate (ps ! j) \<and> (\<forall>k'. ((dupes s)(k \<mapsto> i)) k' \<noteq> Some j)} =
        {j. j < i \<and> candidate (ps ! j) \<and> (\<forall>k. dupes s k \<noteq> Some j)}"
        using None by (rule unretained_first)
      then show ?thesis using rec by (simp add: recorded_def s')
    next
      case (Some prev)
      note pv = scanned_prev [OF inv Some]
      have pl: "prev < length (pjs s)" using pv len by simp
      from iteration_repeat [OF _ _ Some pl it] cand k rd
      obtain ci err w1 res w2 where
        ci: "ci = (if StartTime (Status (pjs s ! prev)) < StartTime (Status (pjs s ! i)) then prev else i)"
        and t': "trace s' = trace s @ block ci (pjs s ! ci) err res"
        and d': "dupes s' = (if ci = i then dupes s else (dupes s)(k \<mapsto> i))"
        and p': "pjs s' = (case res of Inl e \<Rightarrow> pjs s | Inr npj \<Rightarrow> (pjs s)[ci := npj])"
        and r': "None = (case res of Inl e \<Rightarrow> Some (Returned (Some e)) | Inr npj \<Rightarrow> None)"
        by metis
      from r' obtain npj where res: "res = Inr npj" by (cases res) auto
      have cil: "ci < length ps" using ci i pv(2) by simp
      have cird: "pjs s ! ci = ps ! ci" using ci rd pv(4) by simp
      have fresh: "ci \<notin> set (cancelled (trace s))"
        using recorded_fresh [OF rec] Some ci by (cases "ci = i") auto
      have tr: "trace s' = trace s @ block ci (ps ! ci) err (Inr npj)"
        using t' cird res by simp
      have pj: "pjs s' = (pjs s)[ci := npj]" using p' res by simp
      have e: "\<And>k'. k' \<noteq> k \<Longrightarrow> dupes s k' \<noteq> Some prev"
        using scanned_prev(3) [OF inv] pv(3) inGroup_key by blast
      have cp: "candidate (ps ! prev)" using pv(3) by (simp add: inGroup_def)
      have "{j. j < Suc i \<and> candidate (ps ! j) \<and> (\<forall>k. dupes s' k \<noteq> Some j)} =
              insert ci {j. j < i \<and> candidate (ps ! j) \<and> (\<forall>k. dupes s k \<noteq> Some j)}"
      proof (cases "ci = i")
        case True
        then show ?thesis using unretained_keep [of "dupes s" i "\<lambda>j. candidate (ps ! j)", OF below cand] d'
          by simp
      next
        case False
        then have "ci = prev" using ci by (simp split: if_splits)
        then show ?thesis
          using unretained_newer [of "dupes s" k prev i "\<lambda>j. candidate (ps ! j)", OF Some pv(1) cp e] d' False
          by simp
      qed
      then show ?thesis using recorded_abort [OF rec len cil fresh tr pj] by simp
    qed
  qed
qed

lemma iteration_stop:
  assumes inv: "scanned ps i s" and i: "i < length ps"
    and it: "iteration c p i s = (Some out, t)"
  shows "(out = Panicked \<and> t = s \<and> candidate (ps ! i) \<and> identifierOf (ps ! i) = None) \<or>
         (\<exists>e ci err k. out = Returned (Some e) \<and> pjs t = pjs s \<and>
            trace t = trace s @ block ci (ps ! ci) err (Inl e) \<and>
            (ci = i \<or> dupes s k = Some ci) \<and> candidate (ps ! ci) \<and> inGroup ps k i \<and>
            (dupes t = dupes s \<or> dupes t = (dupes s)(k \<mapsto> i)))"
proof -
  have len: "length (pjs s) = length ps" using inv by (simp add: scanned_def)
  have rd: "pjs s ! i = ps ! i" using inv i by (simp add: scanned_read)
  have cand: "candidate (ps ! i)"
    using it rd by (cases "candidate (ps ! i)") (auto simp: iteration_skip)
  show ?thesis
  proof (cases "identifierOf (ps ! i)")
    case None
    then show ?thesis using it rd cand by (simp add: iteration_nopull)
  next
    case (Some k)
    show ?thesis
    proof (cases "dupes s k")
      case None
      then show ?thesis using it rd cand Some by (simp add: iteration_first)
    next
      case prev: (Some prev)
      note pv = scanned_prev [OF inv prev]
      have pl: "prev < length (pjs s)" using pv len by simp
      from iteration_repeat [OF _ _ prev pl it] cand Some rd
      obtain ci err w1 res w2 where
        ci: "ci = (if StartTime (Status (pjs s ! prev)) < StartTime (Status (pjs s ! i)) then prev else i)"
        and t': "trace t = trace s @ block ci (pjs s ! ci) err res"
        and d': "dupes t = (if ci = i then dupes s else (dupes s)(k \<mapsto> i))"
        and p': "pjs t = (case res of Inl e \<Rightarrow> pjs s | Inr npj \<Rightarrow> (pjs s)[ci := npj])"
        and r': "Some out = (case res of Inl e \<Rightarrow> Some (Returned (Some e)) | Inr npj \<Rightarrow> None)"
        by metis
      from r' obtain e where res: "res = Inl e" and out: "out = Returned (Some e)"
        by (cases res) auto
      have cird: "pjs s ! ci = ps ! ci" using ci rd pv(4) by simp
      have cp: "candidate (ps ! prev)" using pv(3) by (simp add: inGroup_def)
      have "pjs t = pjs s" using p' res by simp
      moreover have "trace t = trace s @ block ci (ps ! ci) err (Inl e)"
        using t' res cird by simp
      moreover have "ci = i \<or> dupes s k = Some ci" using ci prev by simp
      moreover have "candidate (ps ! ci)" using ci cand cp by simp
      moreover have "dupes t = dupes s \<or> dupes t = (dupes s)(k \<mapsto> i)" using d' by simp
      moreover have "inGroup ps k i" using cand Some i by (simp add: inGroup_def)
      ultimately show ?thesis using out by blast
    qed
  qed
qed

lemma scanned_init: "scanned ps 0 \<lparr>pjs = ps, dupes = Map.empty, world = w, trace = []\<rparr>"
  by (simp add: scanned_def)

lemma recorded_init: "recorded ps 0 \<lparr>pjs = ps, dupes = Map.empty, world = w, trace = []\<rparr>"
  by (simp add: recorded_def cancelled_def)

lemma terminate_cases:
  assumes "TerminateOlderPresubmitJobs c p ps w = (out, t)"
  shows "(out = Returned None \<and> scanned ps (length ps) t \<and> recorded ps (length ps) t) \<or>
         (\<exists>i u. i < length ps \<and> scanned ps i u \<and> recorded ps i u \<and>
                iteration c p i u = (Some out, t))"
proof -
  let ?P = "\<lambda>i s. scanned ps i s \<and> recorded ps i s"
  have "(out = Returned None \<and> ?P (length ps) t) \<or>
         (\<exists>j u. j < length ps \<and> ?P j u \<and> iteration c p j u = (Some out, t))"
  proof (rule scan_rule [where P = ?P and i = 0])
    show "scan c p (length ps) 0 \<lparr>pjs = ps, dupes = Map.empty, world = w, trace = []\<rparr> = (out, t)"
      using assms by (simp add: TerminateOlderPresubmitJobs_def)
    show "?P 0 \<lparr>pjs = ps, dupes = Map.empty, world = w, trace = []\<rparr>"
      by (simp add: scanned_init recorded_init)
    show "0 \<le> length ps" by simp
    show "\<And>i s s'. i < length ps \<Longrightarrow> ?P i s \<Longrightarrow> iteration c p i s = (None, s') \<Longrightarrow> ?P (Suc i) s'"
      using scanned_step recorded_step by blast
  qed
  then show ?thesis by blast
qed

lemma terminate_ok:
  assumes "TerminateOlderPresubmitJobs c p ps w = (Returned None, t)"
  shows "scanned ps (length ps) t" and "recorded ps (length ps) t"
  using terminate_cases [OF assms] iteration_stop by blast+

lemma terminate_panicked:
  assumes "TerminateOlderPresubmitJobs c p ps w = (Panicked, t)"
  obtains i where "i < length ps" and "scanned ps i t" and "recorded ps i t"
    and "candidate (ps ! i)" and "identifierOf (ps ! i) = None"
proof -
  from terminate_cases [OF assms] obtain i u where
    iu: "i < length ps" "scanned ps i u" "recorded ps i u" "iteration c p i u = (Some Panicked, t)"
    by blast
  from iteration_stop [OF iu(2,1,4)]
  have "t = u \<and> candidate (ps ! i) \<and> identifierOf (ps ! i) = None" by simp
  with iu that show ?thesis by blast
qed

lemma terminate_failed:
  assumes "TerminateOlderPresubmitJobs c p ps (w :: 'w) = (Returned (Some e), t)"
  obtains i ci err and u :: "'w aborter" where "i < length ps" and "scanned ps i u" and "recorded ps i u"
    and "pjs t = pjs u" and "trace t = trace u @ block ci (ps ! ci) err (Inl e)"
    and "ci < length ps" and "candidate (ps ! ci)" and "ci \<notin> set (cancelled (trace u))"
    and "\<And>k j. dupes t k = Some j \<Longrightarrow> inGroup ps k j"
proof -
  from terminate_cases [OF assms] obtain i u where
    iu: "i < length ps" "scanned ps i u" "recorded ps i u"
      "iteration c p i u = (Some (Returned (Some e)), t)"
    by blast
  from iteration_stop [OF iu(2,1,4)] obtain ci err k where
    st: "pjs t = pjs u" "trace t = trace u @ block ci (ps ! ci) err (Inl e)"
      "ci = i \<or> dupes u k = Some ci" "candidate (ps ! ci)" "inGroup ps k i"
      "dupes t = dupes u \<or> dupes t = (dupes u)(k \<mapsto> i)"
    by auto
  have old: "\<And>k j. dupes u k = Some j \<Longrightarrow> inGroup ps k j"
    using scanned_prev(3) [OF iu(2)] .
  have cl: "ci < length ps" using st(3) iu(1) scanned_prev(2) [OF iu(2)] by blast
  have fresh: "ci \<notin> set (cancelled (trace u))"
    using st(3) recorded_fresh [OF iu(3)] by blast
  have dup: "inGroup ps k' j" if "dupes t k' = Some j" for k' j
    using st(6) that old st(5) by (auto split: if_splits)
  show ?thesis
    by (rule that [OF iu(1) iu(2) iu(3) st(1) st(2) cl st(4) fresh]) (rule dup)
qed

text \<open>What holds of the final state however the call ends.\<close>

lemma recorded_final:
  assumes "scanned ps i s" and "recorded ps i s" and "i \<le> length ps"
  shows "distinct (cancelled (trace s))"
    and "\<And>j. j \<in> set (cancelled (trace s)) \<Longrightarrow> j < length ps \<and> candidate (ps ! j)"
    and "cleanupCalls (trace s) = map (\<lambda>j. (j, ps ! j)) (cancelled (trace s))"
    and "map (\<lambda>(j, name, arg, res). (j, name, arg)) (replaceCalls (trace s)) =
           map (\<lambda>j. (j, Name (ObjectMeta (ps ! j)), aborted (ps ! j))) (cancelled (trace s))"
    and "\<And>j. j < length ps \<Longrightarrow> j \<notin> set (cancelled (trace s)) \<Longrightarrow> pjs s ! j = ps ! j"
proof -
  show "distinct (cancelled (trace s))" using assms(2) by (simp add: recorded_def)
  show "j < length ps \<and> candidate (ps ! j)" if "j \<in> set (cancelled (trace s))" for j
    using assms(2,3) that by (auto simp: recorded_def)
  show "cleanupCalls (trace s) = map (\<lambda>j. (j, ps ! j)) (cancelled (trace s))"
    using assms(2) by (simp add: recorded_def)
  have "replaceCalls (trace s) =
        map (\<lambda>j. (j, Name (ObjectMeta (ps ! j)), aborted (ps ! j), Inr (pjs s ! j)))
          (cancelled (trace s))"
    using assms(2) by (simp add: recorded_def)
  then show "map (\<lambda>(j, name, arg, res). (j, name, arg)) (replaceCalls (trace s)) =
           map (\<lambda>j. (j, Name (ObjectMeta (ps ! j)), aborted (ps ! j))) (cancelled (trace s))"
    by simp
  show "pjs s ! j = ps ! j" if "j < length ps" "j \<notin> set (cancelled (trace s))" for j
    using assms(2) that by (simp add: recorded_def)
qed

lemma settled_recorded:
  assumes sc: "scanned ps i s" and rec: "recorded ps i s" and i: "i \<le> length ps"
  shows "settled ps s"
  unfolding settled_def
proof (intro conjI allI impI)
  note r = recorded_final [OF sc rec i]
  show "length (pjs s) = length ps" using sc by (simp add: scanned_def)
  show "distinct (cancelled (trace s))" by (rule r(1))
  show "j < length ps" if "j \<in> set (cancelled (trace s))" for j using r(2) [OF that] by simp
  show "candidate (ps ! j)" if "j \<in> set (cancelled (trace s))" for j using r(2) [OF that] by simp
  show "cleanupCalls (trace s) = map (\<lambda>j. (j, ps ! j)) (cancelled (trace s))" by (rule r(3))
  show "map (\<lambda>(j, name, arg, res). (j, name, arg)) (replaceCalls (trace s)) =
        map (\<lambda>j. (j, Name (ObjectMeta (ps ! j)), aborted (ps ! j))) (cancelled (trace s))"
    by (rule r(4))
  show "pjs s ! j = ps ! j" if "j < length ps" "j \<notin> set (cancelled (trace s))" for j
    by (rule r(5) [OF that])
  show "inGroup ps k j" if "dupes s k = Some j" for k j
    by (rule scanned_prev(3) [OF sc that])
qed

lemma settled_failed:
  assumes u: "settled ps u"
    and f: "pjs t = pjs u" "trace t = trace u @ block ci (ps ! ci) err res"
      "ci < length ps" "candidate (ps ! ci)" "ci \<notin> set (cancelled (trace u))"
      "\<And>k j. dupes t k = Some j \<Longrightarrow> inGroup ps k j"
  shows "settled ps t"
  unfolding settled_def
proof (intro conjI allI impI)
  have c: "cancelled (trace t) = cancelled (trace u) @ [ci]"
    by (simp add: f(2) cancelled_block)
  show "length (pjs t) = length ps" using u f(1) by (simp add: settled_def)
  show "distinct (cancelled (trace t))" using u f(5) by (simp add: c settled_def)
  show "j < length ps" if "j \<in> set (cancelled (trace t))" for j
    using u f(3) that by (auto simp: c settled_def)
  show "candidate (ps ! j)" if "j \<in> set (cancelled (trace t))" for j
    using u f(4) that by (auto simp: c settled_def)
  show "cleanupCalls (trace t) = map (\<lambda>j. (j, ps ! j)) (cancelled (trace t))"
    using u by (simp add: f(2) cancelled_block cleanupCalls_append cleanupCalls_block settled_def)
  show "map (\<lambda>(j, name, arg, res). (j, name, arg)) (replaceCalls (trace t)) =
        map (\<lambda>j. (j, Name (ObjectMeta (ps ! j)), aborted (ps ! j))) (cancelled (trace t))"
    using u by (simp add: f(2) cancelled_block replaceCalls_append replaceCalls_block settled_def)
  show "pjs t ! j = ps ! j" if "j < length ps" "j \<notin> set (cancelled (trace t))" for j
    using u that by (simp add: c f(1) settled_def)
  show "inGroup ps k j" if "dupes t k = Some j" for k j
    by (rule f(6) [OF that])
qed

lemma terminate_settled:
  assumes run: "TerminateOlderPresubmitJobs c p ps w = (out, t)"
  shows "settled ps t"
proof (cases out)
  case Panicked
  from terminate_panicked [OF run [unfolded Panicked]] obtain i where
    i: "i < length ps" "scanned ps i t" "recorded ps i t" by blast
  have "i \<le> length ps" using i(1) by simp
  then show ?thesis using settled_recorded [OF i(2,3)] by simp
next
  case (Returned r)
  show ?thesis
  proof (cases r)
    case None
    note ok = terminate_ok [OF run [unfolded Returned None]]
    show ?thesis by (rule settled_recorded [OF ok order_refl])
  next
    case (Some e)
    show ?thesis
    proof (rule terminate_failed [OF run [unfolded Returned Some]])
      fix i ci err and u :: "'a aborter"
      assume f: "i < length ps" "scanned ps i u" "recorded ps i u"
        "pjs t = pjs u" "trace t = trace u @ block ci (ps ! ci) err (Inl e)"
        "ci < length ps" "candidate (ps ! ci)" "ci \<notin> set (cancelled (trace u))"
        and d: "\<And>k j. dupes t k = Some j \<Longrightarrow> inGroup ps k j"
      have "i \<le> length ps" using f(1) by simp
      from settled_recorded [OF f(2,3) this]
      show ?thesis by (rule settled_failed [OF _ f(4,5,6,7,8) d])
    qed
  qed
qed

lemma settledD:
  assumes "settled ps t"
  shows "length (pjs t) = length ps"
    and "distinct (cancelled (trace t))"
    and "j \<in> set (cancelled (trace t)) \<Longrightarrow> j < length ps"
    and "j \<in> set (cancelled (trace t)) \<Longrightarrow> candidate (ps ! j)"
    and "cleanupCalls (trace t) = map (\<lambda>j. (j, ps ! j)) (cancelled (trace t))"
    and "map (\<lambda>(j, name, arg, res). (j, name, arg)) (replaceCalls (trace t)) =
           map (\<lambda>j. (j, Name (ObjectMeta (ps ! j)), aborted (ps ! j))) (cancelled (trace t))"
    and "j < length ps \<Longrightarrow> j \<notin> set (cancelled (trace t)) \<Longrightarrow> pjs t ! j = ps ! j"
    and "dupes t k = Some j \<Longrightarrow> inGroup ps k j"
  using assms unfolding settled_def by simp_all

lemma settled_cleanup_idx:
  assumes "settled ps t"
  shows "fst ` set (cleanupCalls (trace t)) = set (cancelled (trace t))"
proof -
  have "map fst (cleanupCalls (trace t)) = cancelled (trace t)"
    unfolding settledD(5) [OF assms] by (simp add: comp_def)
  then show ?thesis by (metis set_map)
qed

lemma settled_cleanup_arg:
  assumes "settled ps t" and "x \<in> set (cleanupCalls (trace t))"
  shows "candidate (snd x)"
proof -
  from assms(2) obtain j where "j \<in> set (cancelled (trace t))" "x = (j, ps ! j)"
    unfolding settledD(5) [OF assms(1)] by auto
  then show ?thesis using settledD(4) [OF assms(1)] by simp
qed

lemma replace_idx: "fst ` set (replaceCalls tr) = set (cancelled tr)"
  by (simp add: cancelled_def)

lemma filter_index_distinct:
  "distinct js \<Longrightarrow> j \<in> set js \<Longrightarrow> filter (\<lambda>x. fst x = j) (map (\<lambda>j. (j, g j)) js) = [(j, g j)]"
proof (induction js)
  case Nil
  then show ?case by simp
next
  case (Cons a js)
  show ?case
  proof (cases "a = j")
    case True
    then have "j \<notin> set js" using Cons.prems by simp
    then have "filter (\<lambda>x. fst x = j) (map (\<lambda>j. (j, g j)) js) = []"
      by (induction js) auto
    then show ?thesis using True by simp
  next
    case False
    then show ?thesis using Cons by simp
  qed
qed

lemma filter_index_absent:
  "j \<notin> set js \<Longrightarrow> filter (\<lambda>x. fst x = j) (map (\<lambda>j. (j, g j)) js) = []"
  by (induction js) auto

lemma answered_append:
  "answered c p w (tr @ tr') =
     (case answered c p w tr of None \<Rightarrow> None | Some w' \<Rightarrow> answered c p w' tr')"
  by (induction c p w tr rule: answered.induct) (simp_all split: prod.splits)

lemma answered_block:
  assumes "c pj w = (err, w1)" and "p (Name (ObjectMeta pj)) (aborted pj) w1 = (res, w2)"
  shows "answered c p w (block ci pj err res) = Some w2"
  using assms by (cases err) (simp_all add: block_def)

lemma iteration_answered:
  assumes a: "answered c p w (trace s) = Some (world s)"
    and it: "iteration c p i s = (r, t)"
  shows "answered c p w (trace t) = Some (world t)"
  using it
proof (cases rule: iteration_cases)
  case skip
  then show ?thesis using a by simp
next
  case nopull
  then show ?thesis using a by simp
next
  case (first k)
  then show ?thesis using a by simp
next
  case (range k prev)
  then show ?thesis using a by simp
next
  case (repeat k prev)
  from iteration_repeat [OF repeat it] obtain ci err w1 res w2 where
    b: "c (pjs s ! ci) (world s) = (err, w1)"
      "p (Name (ObjectMeta (pjs s ! ci))) (aborted (pjs s ! ci)) w1 = (res, w2)"
      "trace t = trace s @ block ci (pjs s ! ci) err res"
      "world t = w2"
    by metis
  have "answered c p (world s) (block ci (pjs s ! ci) err res) = Some w2"
    by (rule answered_block [where c = c and p = p, OF b(1,2)])
  then show ?thesis
    using a by (simp add: b(3,4) answered_append)
qed

lemma terminate_answered:
  assumes run: "TerminateOlderPresubmitJobs c p ps w = (out, t)"
  shows "answered c p w (trace t) = Some (world t)"
proof -
  let ?P = "\<lambda>(i::nat) (s::'a aborter). answered c p w (trace s) = Some (world s)"
  have "(out = Returned None \<and> ?P (length ps) t) \<or>
         (\<exists>j u. j < length ps \<and> ?P j u \<and> iteration c p j u = (Some out, t))"
  proof (rule scan_rule [where P = ?P and i = 0])
    show "scan c p (length ps) 0 \<lparr>pjs = ps, dupes = Map.empty, world = w, trace = []\<rparr> = (out, t)"
      using run by (simp add: TerminateOlderPresubmitJobs_def)
    show "?P 0 \<lparr>pjs = ps, dupes = Map.empty, world = w, trace = []\<rparr>" by simp
    show "0 \<le> length ps" by simp
    show "?P (Suc i) s'" if "?P i s" "iteration c p i s = (None, s')" for i s s'
      by (rule iteration_answered [OF that])
  qed
  then show ?thesis
  proof
    assume "out = Returned None \<and> ?P (length ps) t"
    then show ?thesis by simp
  next
    assume "\<exists>j u. j < length ps \<and> ?P j u \<and> iteration c p j u = (Some out, t)"
    then obtain j u where "?P j u" "iteration c p j u = (Some out, t)" by blast
    then show ?thesis by (rule iteration_answered)
  qed
qed

lemma answered_replace:
  assumes "answered c p w tr = Some w'" and "(j, name, arg, res) \<in> set (replaceCalls tr)"
  shows "\<exists>w0 w1. p name arg w0 = (res, w1)"
  using assms
proof (induction c p w tr rule: answered.induct)
  case (3 cleanup pjc w j' name' pj res' tr)
  obtain r1 w1 where c: "pjc name' pj w = (r1, w1)" by (cases "pjc name' pj w")
  have eq: "r1 = res'" and rest: "answered cleanup pjc w1 tr = Some w'"
    using "3.prems"(1) c by (simp_all split: if_splits)
  show ?case
  proof (cases "(j, name, arg, res) = (j', name', pj, res')")
    case True
    then show ?thesis using c eq by auto
  next
    case False
    then have "(j, name, arg, res) \<in> set (replaceCalls tr)" using "3.prems"(2) by auto
    from "3.IH" [OF c [symmetric] eq rest this] show ?thesis .
  qed
next
  case (2 cleanup pjc w j' pj err tr)
  obtain e1 w1 where c: "cleanup pj w = (e1, w1)" by (cases "cleanup pj w")
  have eq: "e1 = err" and rest: "answered cleanup pjc w1 tr = Some w'"
    using "2.prems"(1) c by (simp_all split: if_splits)
  have "(j, name, arg, res) \<in> set (replaceCalls tr)" using "2.prems"(2) by simp
  from "2.IH" [OF c [symmetric] eq rest this] show ?case .
qed simp_all

lemma answered_cleanup:
  assumes "answered c p w tr = Some w'" and "(j, pj) \<in> set (cleanupCalls tr)"
  shows "\<exists>err w0 w1. c pj w0 = (err, w1) \<and> CleanupCall j pj err \<in> set tr"
  using assms
proof (induction c p w tr rule: answered.induct)
  case (2 cleanup pjc w j' pj' err tr)
  obtain e1 w1 where c: "cleanup pj' w = (e1, w1)" by (cases "cleanup pj' w")
  have eq: "e1 = err" and rest: "answered cleanup pjc w1 tr = Some w'"
    using "2.prems"(1) c by (simp_all split: if_splits)
  show ?case
  proof (cases "(j, pj) = (j', pj')")
    case True
    then show ?thesis using c eq by auto
  next
    case False
    then have "(j, pj) \<in> set (cleanupCalls tr)" using "2.prems"(2) by auto
    from "2.IH" [OF c [symmetric] eq rest this] show ?thesis by auto
  qed
next
  case (3 cleanup pjc w j' name' pj' res' tr)
  obtain r1 w1 where c: "pjc name' pj' w = (r1, w1)" by (cases "pjc name' pj' w")
  have eq: "r1 = res'" and rest: "answered cleanup pjc w1 tr = Some w'"
    using "3.prems"(1) c by (simp_all split: if_splits)
  have "(j, pj) \<in> set (cleanupCalls tr)" using "3.prems"(2) by simp
  from "3.IH" [OF c [symmetric] eq rest this] show ?case by auto
qed auto

lemma prefix_tracked:
  assumes run: "scan c p m 0 \<lparr>pjs = ps, dupes = Map.empty, world = w, trace = []\<rparr> = (out, t)"
    and m: "m \<le> length ps" and d: "dupes t k = Some j"
  shows "inGroup ps k j"
proof -
  let ?P = "\<lambda>i (s::'a aborter). scanned ps i s"
  have "(out = Returned None \<and> ?P m t) \<or>
         (\<exists>i u. i < m \<and> ?P i u \<and> iteration c p i u = (Some out, t))"
  proof (rule scan_rule [where P = ?P and i = 0])
    show "scan c p m 0 \<lparr>pjs = ps, dupes = Map.empty, world = w, trace = []\<rparr> = (out, t)"
      by (rule run)
    show "?P 0 \<lparr>pjs = ps, dupes = Map.empty, world = w, trace = []\<rparr>" by (rule scanned_init)
    show "0 \<le> m" by simp
    show "\<And>i s s'. i < m \<Longrightarrow> ?P i s \<Longrightarrow> iteration c p i s = (None, s') \<Longrightarrow> ?P (Suc i) s'"
      using scanned_step m by (meson less_le_trans)
  qed
  then show ?thesis
  proof
    assume "out = Returned None \<and> scanned ps m t"
    then show ?thesis using scanned_prev(3) d by blast
  next
    assume "\<exists>i u. i < m \<and> scanned ps i u \<and> iteration c p i u = (Some out, t)"
    then obtain i u where iu: "i < m" "scanned ps i u" "iteration c p i u = (Some out, t)"
      by blast
    have il: "i < length ps" using iu(1) m by simp
    from iteration_stop [OF iu(2) il iu(3)]
    consider "t = u" | k' where "inGroup ps k' i" "dupes t = dupes u \<or> dupes t = (dupes u)(k' \<mapsto> i)"
      by blast
    then show ?thesis
    proof cases
      case 1
      then show ?thesis using scanned_prev(3) [OF iu(2)] d by simp
    next
      case 2
      then show ?thesis using scanned_prev(3) [OF iu(2)] d
        by (auto split: if_splits)
    qed
  qed
qed

text \<open>
  C3. A job of the input that is already complete, or whose kind is not presubmit, is left
  alone however the call ends: its slot is unchanged, the cleanup callback is called
  neither for its index nor on its record, \<open>ReplaceProwJob\<close> is not called for it, and
  \<open>dupes\<close> does not point to it, neither at the end nor after any number of iterations.
  The calls in the trace are all the calls there were: replayed against the collaborators
  they give the final outside world.
\<close>

theorem skipped_jobs_untouched:
  assumes run: "TerminateOlderPresubmitJobs cleanup pjc ps w = (out, t)"
    and j: "j < length ps"
    and skip: "Complete (ps ! j) \<or> Type (Spec (ps ! j)) \<noteq> PresubmitJob"
  shows "pjs t ! j = ps ! j \<and>
         j \<notin> fst ` set (cleanupCalls (trace t)) \<and>
         ps ! j \<notin> snd ` set (cleanupCalls (trace t)) \<and>
         j \<notin> fst ` set (replaceCalls (trace t)) \<and>
         (\<forall>k. dupes t k \<noteq> Some j) \<and>
         (\<forall>m k. m \<le> length ps \<longrightarrow>
            dupes (snd (scan cleanup pjc m 0 \<lparr>pjs = ps, dupes = Map.empty, world = w, trace = []\<rparr>)) k
              \<noteq> Some j) \<and>
         answered cleanup pjc w (trace t) = Some (world t)"
proof -
  note st = terminate_settled [OF run]
  have 7: "answered cleanup pjc w (trace t) = Some (world t)" by (rule terminate_answered [OF run])
  have nc: "\<not> candidate (ps ! j)" using skip by (auto simp: candidate_def)
  have out: "j \<notin> set (cancelled (trace t))" using settledD(4) [OF st] nc by blast
  have 1: "pjs t ! j = ps ! j" using settledD(7) [OF st j out] .
  have 2: "j \<notin> fst ` set (cleanupCalls (trace t))" using out settled_cleanup_idx [OF st] by simp
  have 3: "ps ! j \<notin> snd ` set (cleanupCalls (trace t))"
    using settled_cleanup_arg [OF st] nc by force
  have 4: "j \<notin> fst ` set (replaceCalls (trace t))" using out by (simp add: replace_idx)
  have 5: "\<forall>k. dupes t k \<noteq> Some j"
  proof
    fix k show "dupes t k \<noteq> Some j"
    proof
      assume "dupes t k = Some j"
      then have "inGroup ps k j" by (rule settledD(8) [OF st])
      then show False using nc by (simp add: inGroup_def)
    qed
  qed
  have 6: "dupes (snd (scan cleanup pjc m 0 \<lparr>pjs = ps, dupes = Map.empty, world = w, trace = []\<rparr>)) k
              \<noteq> Some j" if m: "m \<le> length ps" for m k
  proof
    assume "dupes (snd (scan cleanup pjc m 0 \<lparr>pjs = ps, dupes = Map.empty, world = w, trace = []\<rparr>)) k
              = Some j"
    then have "inGroup ps k j" by (rule prefix_tracked [OF surjective_pairing m])
    then show False using nc by (simp add: inGroup_def)
  qed
  show ?thesis using 1 2 3 4 5 6 7 by blast
qed

text \<open>
  C9. The identity key reads the first element of \<open>Pulls\<close>. When every incomplete
  presubmit job of the input has at least one pull-request ref, the call does not panic:
  \<open>Pulls[0]\<close> is in range on every job that reaches line 67 (and so are \<open>pjs[prev]\<close>
  and \<open>pjs[cancelIndex]\<close>), and the key carries the number of that first ref.
\<close>

theorem pulls_index_in_range:
  assumes pre: "\<forall>pj\<in>set ps. \<not> Complete pj \<and> Type (Spec pj) = PresubmitJob \<longrightarrow>
                  Pulls (Refs (Spec pj)) \<noteq> []"
  shows "fst (TerminateOlderPresubmitJobs cleanup pjc ps w) \<noteq> Panicked \<and>
         (\<forall>pj\<in>set ps. \<not> Complete pj \<and> Type (Spec pj) = PresubmitJob \<longrightarrow>
            identifierOf pj =
              Some \<lparr>job = Job (Spec pj), organization = Org (Refs (Spec pj)),
                    repository = Repo (Refs (Spec pj)),
                    pullRequest = Number (hd (Pulls (Refs (Spec pj))))\<rparr>)"
proof
  show "fst (TerminateOlderPresubmitJobs cleanup pjc ps w) \<noteq> Panicked"
  proof
    assume p: "fst (TerminateOlderPresubmitJobs cleanup pjc ps w) = Panicked"
    obtain t where run: "TerminateOlderPresubmitJobs cleanup pjc ps w = (Panicked, t)"
      using p by (cases "TerminateOlderPresubmitJobs cleanup pjc ps w") simp
    from terminate_panicked [OF run] obtain i where
      i: "i < length ps" "candidate (ps ! i)" "identifierOf (ps ! i) = None" by blast
    have "Pulls (Refs (Spec (ps ! i))) = []"
      using i(3) by (simp add: identifierOf_def split: list.splits)
    moreover have "ps ! i \<in> set ps" using i(1) by simp
    ultimately show False using pre i(2) by (auto simp: candidate_def)
  qed
  show "\<forall>pj\<in>set ps. \<not> Complete pj \<and> Type (Spec pj) = PresubmitJob \<longrightarrow>
            identifierOf pj =
              Some \<lparr>job = Job (Spec pj), organization = Org (Refs (Spec pj)),
                    repository = Repo (Refs (Spec pj)),
                    pullRequest = Number (hd (Pulls (Refs (Spec pj))))\<rparr>"
    using pre by (auto simp: identifierOf_def split: list.splits)
qed

text \<open>
  C5. After a call that returns \<open>nil\<close> the slice has its length, the slot of each job
  for which \<open>ReplaceProwJob\<close> was called holds the record which that one call returned,
  and every other slot is as it was at the start. The call in the trace is a call of the
  client: the client, given the name and the aborted copy of the input record, answered
  with the record in the slot; and the trace, replayed against the callback and the
  client, gives the final outside world.
\<close>

theorem replaced_in_place:
  assumes run: "TerminateOlderPresubmitJobs cleanup pjc ps w = (Returned None, t)"
    and j: "j < length ps"
  shows "length (pjs t) = length ps \<and>
         (if j \<in> set (cancelled (trace t))
          then filter (\<lambda>x. fst x = j) (replaceCalls (trace t)) =
                 [(j, Name (ObjectMeta (ps ! j)), aborted (ps ! j), Inr (pjs t ! j))] \<and>
               (\<exists>w0 w1. pjc (Name (ObjectMeta (ps ! j))) (aborted (ps ! j)) w0 =
                           (Inr (pjs t ! j), w1))
          else pjs t ! j = ps ! j) \<and>
         answered cleanup pjc w (trace t) = Some (world t)"
proof -
  note ok = terminate_ok [OF run]
  note ans = terminate_answered [OF run]
  have len: "length (pjs t) = length ps" using ok(1) by (simp add: scanned_def)
  have d: "distinct (cancelled (trace t))" using ok(2) by (simp add: recorded_def)
  have r: "replaceCalls (trace t) =
        map (\<lambda>j. (j, Name (ObjectMeta (ps ! j)), aborted (ps ! j), Inr (pjs t ! j)))
          (cancelled (trace t))"
    using ok(2) by (simp add: recorded_def)
  show ?thesis
  proof (cases "j \<in> set (cancelled (trace t))")
    case True
    have f: "filter (\<lambda>x. fst x = j) (replaceCalls (trace t)) =
                 [(j, Name (ObjectMeta (ps ! j)), aborted (ps ! j), Inr (pjs t ! j))]"
      unfolding r by (rule filter_index_distinct [OF d True])
    have "(j, Name (ObjectMeta (ps ! j)), aborted (ps ! j), Inr (pjs t ! j))
        \<in> set (replaceCalls (trace t))"
      unfolding r using True by simp
    from answered_replace [OF ans this]
    have "\<exists>w0 w1. pjc (Name (ObjectMeta (ps ! j))) (aborted (ps ! j)) w0 =
                           (Inr (pjs t ! j), w1)" .
    then show ?thesis using f True len ans by simp
  next
    case False
    then have "pjs t ! j = ps ! j" using ok(2) j by (simp add: recorded_def)
    then show ?thesis using False len ans by simp
  qed
qed

lemmas example_defs =
  TerminateOlderPresubmitJobs_def iteration_def identifierOf_def Complete_def SetComplete_def
  Before_def Let_def examplePresubmit_def exampleJobs_def cleanupOk_def storeOk_def

lemma example_run_ok:
  "fst (TerminateOlderPresubmitJobs cleanupOk storeOk exampleJobs 0) = Returned None"
  by (simp add: example_defs scan.simps)

theorem skipped_jobs_untouched_witness:
  "pjs (snd (TerminateOlderPresubmitJobs cleanupOk storeOk exampleJobs 0)) ! 0 = exampleJobs ! 0 \<and>
   0 \<notin> fst ` set (cleanupCalls (trace (snd (TerminateOlderPresubmitJobs cleanupOk storeOk exampleJobs 0)))) \<and>
   exampleJobs ! 0 \<notin> snd ` set (cleanupCalls (trace (snd (TerminateOlderPresubmitJobs cleanupOk storeOk exampleJobs 0)))) \<and>
   0 \<notin> fst ` set (replaceCalls (trace (snd (TerminateOlderPresubmitJobs cleanupOk storeOk exampleJobs 0)))) \<and>
   (\<forall>k. dupes (snd (TerminateOlderPresubmitJobs cleanupOk storeOk exampleJobs 0)) k \<noteq> Some 0) \<and>
   answered cleanupOk storeOk 0 (trace (snd (TerminateOlderPresubmitJobs cleanupOk storeOk exampleJobs 0))) =
     Some (world (snd (TerminateOlderPresubmitJobs cleanupOk storeOk exampleJobs 0))) \<and>
   world (snd (TerminateOlderPresubmitJobs cleanupOk storeOk exampleJobs 0)) = 2"
proof -
  have w: "world (snd (TerminateOlderPresubmitJobs cleanupOk storeOk exampleJobs 0)) = 2"
    by (simp add: example_defs scan.simps)
  have j: "0 < length exampleJobs" by (simp add: exampleJobs_def)
  have skip: "Complete (exampleJobs ! 0) \<or> Type (Spec (exampleJobs ! 0)) \<noteq> PresubmitJob"
    by (simp add: exampleJobs_def Complete_def SetComplete_def)
  show ?thesis
    using skipped_jobs_untouched [OF surjective_pairing j skip, of cleanupOk storeOk 0] w
    by blast
qed

theorem pulls_index_in_range_witness:
  "fst (TerminateOlderPresubmitJobs cleanupOk storeOk exampleJobs 0) \<noteq> Panicked"
proof -
  have pre: "\<forall>pj\<in>set exampleJobs. \<not> Complete pj \<and> Type (Spec pj) = PresubmitJob \<longrightarrow>
                  Pulls (Refs (Spec pj)) \<noteq> []"
    by (simp add: exampleJobs_def examplePresubmit_def SetComplete_def)
  show ?thesis
    by (rule conjunct1 [OF pulls_index_in_range [OF pre]])
qed

theorem replaced_in_place_witness:
  "length (pjs (snd (TerminateOlderPresubmitJobs cleanupOk storeOk exampleJobs 0))) = length exampleJobs \<and>
   filter (\<lambda>x. fst x = 1) (replaceCalls (trace (snd (TerminateOlderPresubmitJobs cleanupOk storeOk exampleJobs 0)))) =
     [(1, Name (ObjectMeta (exampleJobs ! 1)), aborted (exampleJobs ! 1),
       Inr (pjs (snd (TerminateOlderPresubmitJobs cleanupOk storeOk exampleJobs 0)) ! 1))] \<and>
   pjs (snd (TerminateOlderPresubmitJobs cleanupOk storeOk exampleJobs 0)) ! 2 = exampleJobs ! 2 \<and>
   answered cleanupOk storeOk 0 (trace (snd (TerminateOlderPresubmitJobs cleanupOk storeOk exampleJobs 0))) =
     Some (world (snd (TerminateOlderPresubmitJobs cleanupOk storeOk exampleJobs 0))) \<and>
   world (snd (TerminateOlderPresubmitJobs cleanupOk storeOk exampleJobs 0)) = 2 \<and>
   pjs (snd (TerminateOlderPresubmitJobs cleanupOk storeOk exampleJobs 0)) ! 1 = aborted (exampleJobs ! 1) \<and>
   storeOk (Name (ObjectMeta (exampleJobs ! 1))) (aborted (exampleJobs ! 1)) 0 =
     (Inr (pjs (snd (TerminateOlderPresubmitJobs cleanupOk storeOk exampleJobs 0)) ! 1), 1)"
proof -
  have run: "TerminateOlderPresubmitJobs cleanupOk storeOk exampleJobs 0 =
      (Returned None, snd (TerminateOlderPresubmitJobs cleanupOk storeOk exampleJobs 0))"
    using example_run_ok by (metis prod.collapse)
  have sel: "cancelled (trace (snd (TerminateOlderPresubmitJobs cleanupOk storeOk exampleJobs 0))) = [1, 3]"
    by (simp add: example_defs scan.simps cancelled_def)
  have l: "1 < length exampleJobs" "2 < length exampleJobs" by (simp_all add: exampleJobs_def)
  have w: "world (snd (TerminateOlderPresubmitJobs cleanupOk storeOk exampleJobs 0)) = 2"
    by (simp add: example_defs scan.simps)
  have slot: "pjs (snd (TerminateOlderPresubmitJobs cleanupOk storeOk exampleJobs 0)) ! 1 =
      aborted (exampleJobs ! 1)"
    by (simp add: example_defs scan.simps aborted_def)
  have call: "storeOk (Name (ObjectMeta (exampleJobs ! 1))) (aborted (exampleJobs ! 1)) 0 =
     (Inr (pjs (snd (TerminateOlderPresubmitJobs cleanupOk storeOk exampleJobs 0)) ! 1), 1)"
    unfolding slot by (simp add: storeOk_def)
  show ?thesis
    using replaced_in_place [OF run l(1)] replaced_in_place [OF run l(2)] w slot call
    by (simp add: sel)
qed

lemma block_last:
  "\<exists>pre. block ci pj err res = pre @ [ReplaceCall ci (Name (ObjectMeta pj)) (aborted pj) res]"
  by (cases err) (simp_all add: block_def)

lemma recorded_replaced:
  "recorded ps i s \<Longrightarrow> x \<in> set (replaceCalls (trace s)) \<Longrightarrow> \<exists>npj. snd (snd (snd x)) = Inr npj"
  by (auto simp: recorded_def)

text \<open>
  C2. When a call of \<open>ReplaceProwJob\<close> fails, that call is the last thing the aborter does
  and its error is what the call returns. Every earlier call of \<open>ReplaceProwJob\<close> was for
  an aborted, completed copy of the input job and its slot holds the record returned; every
  other slot, that of the job whose replacement failed included, is as it was at the start.
  The failed call is a call of the client, and the trace replayed against the callback and
  the client gives the final outside world.
\<close>

theorem fail_fast:
  assumes run: "TerminateOlderPresubmitJobs cleanup pjc ps w = (out, t)"
    and fail: "(j, name, arg, Inl e) \<in> set (replaceCalls (trace t))"
  shows "out = Returned (Some e) \<and>
         (\<exists>tr. trace t = tr @ [ReplaceCall j name arg (Inl e)]) \<and>
         replaceCalls (trace t) =
           map (\<lambda>j'. (j', Name (ObjectMeta (ps ! j')), aborted (ps ! j'), Inr (pjs t ! j')))
             (butlast (cancelled (trace t))) @ [(j, name, arg, Inl e)] \<and>
         name = Name (ObjectMeta (ps ! j)) \<and> arg = aborted (ps ! j) \<and>
         length (pjs t) = length ps \<and> j < length ps \<and> j \<notin> set (butlast (cancelled (trace t))) \<and>
         (\<forall>j'<length ps. j' \<notin> set (butlast (cancelled (trace t))) \<longrightarrow> pjs t ! j' = ps ! j') \<and>
         (\<exists>w0 w1. pjc name arg w0 = (Inl e, w1)) \<and>
         answered cleanup pjc w (trace t) = Some (world t)"
proof -
  note ans = terminate_answered [OF run]
  have call: "\<exists>w0 w1. pjc name arg w0 = (Inl e, w1)"
    by (rule answered_replace [OF ans fail])
  have inr: "\<exists>npj. snd (snd (snd (j, name, arg, Inl e :: error + ProwJob))) = Inr npj"
    if "recorded ps i (t :: 'a aborter)" for i
    using recorded_replaced [OF that fail] .
  obtain e' where out: "out = Returned (Some e')"
  proof (cases out)
    case Panicked
    from terminate_panicked [OF run [unfolded Panicked]] obtain i where "recorded ps i t" by blast
    from inr [OF this] show ?thesis by simp
  next
    case (Returned r)
    show ?thesis
    proof (cases r)
      case None
      from inr [OF terminate_ok(2) [OF run [unfolded Returned None]]] show ?thesis by simp
    next
      case (Some e')
      then show ?thesis using that Returned by simp
    qed
  qed
  show ?thesis
  proof (rule terminate_failed [OF run [unfolded out]])
    fix i ci err and u :: "'a aborter"
    assume f: "i < length ps" "scanned ps i u" "recorded ps i u"
      "pjs t = pjs u" "trace t = trace u @ block ci (ps ! ci) err (Inl e')"
      "ci < length ps" "candidate (ps ! ci)" "ci \<notin> set (cancelled (trace u))"
    have ru: "replaceCalls (trace u) =
        map (\<lambda>j. (j, Name (ObjectMeta (ps ! j)), aborted (ps ! j), Inr (pjs u ! j)))
          (cancelled (trace u))"
      using f(3) by (simp add: recorded_def)
    have rt: "replaceCalls (trace t) =
        replaceCalls (trace u) @ [(ci, Name (ObjectMeta (ps ! ci)), aborted (ps ! ci), Inl e')]"
      by (simp add: f(5) replaceCalls_append replaceCalls_block)
    have "(j, name, arg, Inl e) \<notin> set (replaceCalls (trace u))"
      using recorded_replaced [OF f(3), of "(j, name, arg, Inl e)"] by auto
    then have last: "(j, name, arg, Inl e) = (ci, Name (ObjectMeta (ps ! ci)), aborted (ps ! ci), Inl e')"
      using fail rt by simp
    then have eq: "j = ci" "name = Name (ObjectMeta (ps ! ci))" "arg = aborted (ps ! ci)" "e = e'"
      by simp_all
    have c: "butlast (cancelled (trace t)) = cancelled (trace u)"
      by (simp add: f(5) cancelled_block)
    obtain pre where "block ci (ps ! ci) err (Inl e') =
        pre @ [ReplaceCall ci (Name (ObjectMeta (ps ! ci))) (aborted (ps ! ci)) (Inl e')]"
      using block_last by blast
    then have 1: "\<exists>tr. trace t = tr @ [ReplaceCall j name arg (Inl e)]"
      using eq f(5) by (metis append.assoc)
    have 2: "replaceCalls (trace t) =
           map (\<lambda>j'. (j', Name (ObjectMeta (ps ! j')), aborted (ps ! j'), Inr (pjs t ! j')))
             (butlast (cancelled (trace t))) @ [(j, name, arg, Inl e)]"
      unfolding c rt ru f(4) using eq by simp
    have 3: "length (pjs t) = length ps" using f(2,4) by (simp add: scanned_def)
    have 4: "\<forall>j'<length ps. j' \<notin> set (butlast (cancelled (trace t))) \<longrightarrow> pjs t ! j' = ps ! j'"
      unfolding c f(4) using f(3) by (simp add: recorded_def)
    show ?thesis using out eq 1 2 3 4 f(6,8) c call ans by simp
  qed
qed

theorem fail_fast_witness:
  "fst (TerminateOlderPresubmitJobs cleanupBroken storeOnce exampleJobs 0) = Returned (Some ''conflict'') \<and>
   length (pjs (snd (TerminateOlderPresubmitJobs cleanupBroken storeOnce exampleJobs 0))) = length exampleJobs \<and>
   pjs (snd (TerminateOlderPresubmitJobs cleanupBroken storeOnce exampleJobs 0)) ! 3 = exampleJobs ! 3 \<and>
   pjs (snd (TerminateOlderPresubmitJobs cleanupBroken storeOnce exampleJobs 0)) ! 2 = exampleJobs ! 2 \<and>
   answered cleanupBroken storeOnce 0
     (trace (snd (TerminateOlderPresubmitJobs cleanupBroken storeOnce exampleJobs 0))) =
     Some (world (snd (TerminateOlderPresubmitJobs cleanupBroken storeOnce exampleJobs 0))) \<and>
   world (snd (TerminateOlderPresubmitJobs cleanupBroken storeOnce exampleJobs 0)) = 1"
proof -
  have w: "world (snd (TerminateOlderPresubmitJobs cleanupBroken storeOnce exampleJobs 0)) = 1"
    by (simp add: example_defs cleanupBroken_def storeOnce_def scan.simps)
  have fail: "(3, ''third'', aborted (exampleJobs ! 3), Inl ''conflict'')
      \<in> set (replaceCalls (trace (snd (TerminateOlderPresubmitJobs cleanupBroken storeOnce exampleJobs 0))))"
    by (simp add: example_defs cleanupBroken_def storeOnce_def scan.simps aborted_def)
  have c: "butlast (cancelled (trace (snd (TerminateOlderPresubmitJobs cleanupBroken storeOnce exampleJobs 0)))) = [1]"
    by (simp add: example_defs cleanupBroken_def storeOnce_def scan.simps cancelled_def)
  have l: "length exampleJobs = 4" by (simp add: exampleJobs_def)
  show ?thesis
    using fail_fast [OF surjective_pairing fail] w by (simp add: c l)
qed

text \<open>
  C1, as the code has it. After a call that returns \<open>nil\<close>, each group of incomplete
  presubmit jobs with the same identity key has exactly one member \<open>r\<close> that the aborter
  left alone, the one \<open>dupes\<close> ends on: no job of the group started later than \<open>r\<close>, and of
  those that started at the same time \<open>r\<close> comes first in the input. Every other member
  \<open>j\<close> of the group was cancelled exactly once: one call of the cleanup callback, on the
  input record, one call of \<open>ReplaceProwJob\<close>, for its completed and aborted copy, and the
  slot holds what that call returned; the slot is in the aborted state when the client
  returns aborted records. The calls in the trace are the calls there were: replayed
  against the callback and the client they give the final outside world.
\<close>

theorem newest_survives:
  assumes run: "TerminateOlderPresubmitJobs cleanup pjc ps w = (Returned None, t)"
    and grp: "inGroup ps k j"
  shows "\<exists>r. retainedUpTo ps (length ps) k r \<and> dupes t k = Some r \<and>
             pjs t ! r = ps ! r \<and>
             r \<notin> set (cancelled (trace t)) \<and> r \<notin> fst ` set (cleanupCalls (trace t)) \<and>
             answered cleanup pjc w (trace t) = Some (world t) \<and>
             (j \<noteq> r \<longrightarrow>
                filter (\<lambda>x. fst x = j) (cleanupCalls (trace t)) = [(j, ps ! j)] \<and>
                filter (\<lambda>x. fst x = j) (replaceCalls (trace t)) =
                  [(j, Name (ObjectMeta (ps ! j)), aborted (ps ! j), Inr (pjs t ! j))] \<and>
                ((\<forall>x\<in>set (replaceCalls (trace t)). \<forall>npj. snd (snd (snd x)) = Inr npj \<longrightarrow>
                      State (Status npj) = AbortedState) \<longrightarrow>
                 State (Status (pjs t ! j)) = AbortedState))"
proof -
  note ok = terminate_ok [OF run]
  note st = terminate_settled [OF run]
  have j: "j < length ps" and cj: "candidate (ps ! j)" using grp by (simp_all add: inGroup_def)
  have "dupes t k \<noteq> None"
  proof
    assume "dupes t k = None"
    then have "\<forall>j<length ps. \<not> inGroup ps k j" using ok(1) by (simp add: scanned_def)
    then show False using grp j by blast
  qed
  then obtain r where r: "dupes t k = Some r" by blast
  note pv = scanned_prev [OF ok(1) r]
  have 1: "retainedUpTo ps (length ps) k r" by (rule scanned_retained [OF ok(1) r])
  have 2: "r \<notin> set (cancelled (trace t))" by (rule recorded_fresh(2) [OF ok(2) r])
  have 3: "r \<notin> fst ` set (cleanupCalls (trace t))"
    using 2 settled_cleanup_idx [OF st] by simp
  have d: "distinct (cancelled (trace t))" by (rule settledD(2) [OF st])
  have rc: "replaceCalls (trace t) =
        map (\<lambda>j. (j, Name (ObjectMeta (ps ! j)), aborted (ps ! j), Inr (pjs t ! j)))
          (cancelled (trace t))"
    using ok(2) by (simp add: recorded_def)
  have 4: "filter (\<lambda>x. fst x = j) (cleanupCalls (trace t)) = [(j, ps ! j)] \<and>
           filter (\<lambda>x. fst x = j) (replaceCalls (trace t)) =
             [(j, Name (ObjectMeta (ps ! j)), aborted (ps ! j), Inr (pjs t ! j))] \<and>
           ((\<forall>x\<in>set (replaceCalls (trace t)). \<forall>npj. snd (snd (snd x)) = Inr npj \<longrightarrow>
                      State (Status npj) = AbortedState) \<longrightarrow>
                 State (Status (pjs t ! j)) = AbortedState)"
    if ne: "j \<noteq> r"
  proof -
    have free: "dupes t k' \<noteq> Some j" for k'
    proof
      assume a: "dupes t k' = Some j"
      then have "inGroup ps k' j" by (rule scanned_prev(3) [OF ok(1)])
      then have "k' = k" using grp inGroup_key by blast
      then show False using a r ne by simp
    qed
    have "set (cancelled (trace t)) =
        {j. j < length ps \<and> candidate (ps ! j) \<and> (\<forall>k. dupes t k \<noteq> Some j)}"
      using ok(2) by (simp add: recorded_def)
    then have mem: "j \<in> set (cancelled (trace t))" using j cj free by simp
    have a: "filter (\<lambda>x. fst x = j) (cleanupCalls (trace t)) = [(j, ps ! j)]"
      unfolding settledD(5) [OF st] by (rule filter_index_distinct [OF d mem])
    have b: "filter (\<lambda>x. fst x = j) (replaceCalls (trace t)) =
             [(j, Name (ObjectMeta (ps ! j)), aborted (ps ! j), Inr (pjs t ! j))]"
      unfolding rc by (rule filter_index_distinct [OF d mem])
    have "(j, Name (ObjectMeta (ps ! j)), aborted (ps ! j), Inr (pjs t ! j))
        \<in> set (replaceCalls (trace t))"
      unfolding rc using mem by simp
    then have c: "State (Status (pjs t ! j)) = AbortedState"
      if "\<forall>x\<in>set (replaceCalls (trace t)). \<forall>npj. snd (snd (snd x)) = Inr npj \<longrightarrow>
                      State (Status npj) = AbortedState"
      using that by fastforce
    show ?thesis using a b c by blast
  qed
  have ans: "answered cleanup pjc w (trace t) = Some (world t)"
    by (rule terminate_answered [OF run])
  show ?thesis using 1 r pv(4) 2 3 4 ans by blast
qed

theorem newest_survives_witness:
  "\<exists>r. retainedUpTo exampleJobs (length exampleJobs) (the (identifierOf (exampleJobs ! 1))) r \<and>
       dupes (snd (TerminateOlderPresubmitJobs cleanupOk storeOk exampleJobs 0))
         (the (identifierOf (exampleJobs ! 1))) = Some r \<and>
       answered cleanupOk storeOk 0
         (trace (snd (TerminateOlderPresubmitJobs cleanupOk storeOk exampleJobs 0))) =
         Some (world (snd (TerminateOlderPresubmitJobs cleanupOk storeOk exampleJobs 0))) \<and>
       world (snd (TerminateOlderPresubmitJobs cleanupOk storeOk exampleJobs 0)) = 2 \<and>
       r = 2"
proof -
  have w: "world (snd (TerminateOlderPresubmitJobs cleanupOk storeOk exampleJobs 0)) = 2"
    by (simp add: example_defs scan.simps)
  have run: "TerminateOlderPresubmitJobs cleanupOk storeOk exampleJobs 0 =
      (Returned None, snd (TerminateOlderPresubmitJobs cleanupOk storeOk exampleJobs 0))"
    using example_run_ok by (metis prod.collapse)
  have grp: "inGroup exampleJobs (the (identifierOf (exampleJobs ! 1))) 1"
    by (simp add: inGroup_def candidate_def example_defs)
  have d: "dupes (snd (TerminateOlderPresubmitJobs cleanupOk storeOk exampleJobs 0))
         (the (identifierOf (exampleJobs ! 1))) = Some 2"
    by (simp add: example_defs scan.simps)
  show ?thesis
    using newest_survives [OF run grp] d w by auto
qed

text \<open>
  C1, the tie as the code breaks it. Two incomplete presubmit jobs with the same key that
  started at the same time: the call returns \<open>nil\<close>, the job at the later position is the
  one cleaned up and aborted, and the job at the earlier position stays as it was.
\<close>

theorem tie_cancels_later_position:
  "fst (TerminateOlderPresubmitJobs cleanupOk storeOk tiedJobs 0) = Returned None \<and>
   identifierOf (tiedJobs ! 0) = identifierOf (tiedJobs ! 1) \<and>
   candidate (tiedJobs ! 0) \<and> candidate (tiedJobs ! 1) \<and>
   StartTime (Status (tiedJobs ! 0)) = StartTime (Status (tiedJobs ! 1)) \<and>
   cleanupCalls (trace (snd (TerminateOlderPresubmitJobs cleanupOk storeOk tiedJobs 0))) =
     [(1, tiedJobs ! 1)] \<and>
   cancelled (trace (snd (TerminateOlderPresubmitJobs cleanupOk storeOk tiedJobs 0))) = [1] \<and>
   State (Status (pjs (snd (TerminateOlderPresubmitJobs cleanupOk storeOk tiedJobs 0)) ! 1)) = AbortedState \<and>
   pjs (snd (TerminateOlderPresubmitJobs cleanupOk storeOk tiedJobs 0)) ! 0 = tiedJobs ! 0 \<and>
   State (Status (tiedJobs ! 0)) = PendingState"
  by (simp add: example_defs tiedJobs_def scan.simps cancelled_def candidate_def)

lemma scan_sim:
  assumes "R s s'"
    and "\<And>i s s' r t. i < n \<Longrightarrow> R s s' \<Longrightarrow> iteration c p i s = (r, t) \<Longrightarrow>
           \<exists>t'. iteration c' p' i s' = (r, t') \<and> R t t'"
  shows "\<exists>t'. scan c' p' n i s' = (fst (scan c p n i s), t') \<and> R (snd (scan c p n i s)) t'"
  using assms
proof (induction c p n i s arbitrary: s' rule: scan.induct)
  case (1 c p n i s)
  note step = "1.prems"(2)
  show ?case
  proof (cases "i < n")
    case False
    then show ?thesis using "1.prems"(1)
      by (simp add: scan.simps [of _ _ n i])
  next
    case True
    obtain r t where it: "iteration c p i s = (r, t)" by (cases "iteration c p i s")
    from step [OF True "1.prems"(1) it] obtain t' where
      it': "iteration c' p' i s' = (r, t')" and R: "R t t'" by blast
    show ?thesis
    proof (cases r)
      case None
      from "1.IH" [OF True it [symmetric, unfolded None] refl R step]
      show ?thesis using True it it' None
        by (simp add: scan.simps [of _ _ n i])
    next
      case (Some out)
      then show ?thesis using True it it' R
        by (simp add: scan.simps [of _ _ n i])
    qed
  qed
qed

lemma silence_append: "silence (tr @ tr') = silence tr @ silence tr'"
  by (induction tr rule: silence.induct) simp_all

lemma silence_block: "silence (block ci pj err res) = block ci pj None res"
  by (cases err) (simp_all add: block_def)

lemma iteration_succeeding:
  assumes it: "iteration c p i s = (r, t)"
  shows "iteration (succeeding c) p i (s\<lparr>trace := silence (trace s)\<rparr>) =
           (r, t\<lparr>trace := silence (trace t)\<rparr>)"
  using it
proof (cases rule: iteration_cases)
  case skip
  then show ?thesis by (simp add: iteration_skip)
next
  case nopull
  then show ?thesis by (simp add: iteration_nopull)
next
  case (first k)
  then show ?thesis by (simp add: iteration_first)
next
  case (range k prev)
  then show ?thesis by (simp add: iteration_range)
next
  case (repeat k prev)
  let ?s = "s\<lparr>trace := silence (trace s)\<rparr>"
  obtain r' t' where it': "iteration (succeeding c) p i ?s = (r', t')"
    by (cases "iteration (succeeding c) p i ?s")
  from iteration_repeat [OF repeat it] obtain ci err w1 res w2 where
    a: "ci = (if StartTime (Status (pjs s ! prev)) < StartTime (Status (pjs s ! i)) then prev else i)"
      "c (pjs s ! ci) (world s) = (err, w1)"
      "p (Name (ObjectMeta (pjs s ! ci))) (aborted (pjs s ! ci)) w1 = (res, w2)"
      "trace t = trace s @ block ci (pjs s ! ci) err res"
      "world t = w2"
      "dupes t = (if ci = i then dupes s else (dupes s)(k \<mapsto> i))"
      "pjs t = (case res of Inl e \<Rightarrow> pjs s | Inr npj \<Rightarrow> (pjs s)[ci := npj])"
      "r = (case res of Inl e \<Rightarrow> Some (Returned (Some e)) | Inr npj \<Rightarrow> None)"
    by metis
  have pre: "candidate (pjs ?s ! i)" "identifierOf (pjs ?s ! i) = Some k"
    "dupes ?s k = Some prev" "prev < length (pjs ?s)"
    using repeat by simp_all
  from iteration_repeat [OF pre it'] obtain ci' err' w1' res' w2' where
    b: "ci' = (if StartTime (Status (pjs ?s ! prev)) < StartTime (Status (pjs ?s ! i)) then prev else i)"
      "succeeding c (pjs ?s ! ci') (world ?s) = (err', w1')"
      "p (Name (ObjectMeta (pjs ?s ! ci'))) (aborted (pjs ?s ! ci')) w1' = (res', w2')"
      "trace t' = trace ?s @ block ci' (pjs ?s ! ci') err' res'"
      "world t' = w2'"
      "dupes t' = (if ci' = i then dupes ?s else (dupes ?s)(k \<mapsto> i))"
      "pjs t' = (case res' of Inl e \<Rightarrow> pjs ?s | Inr npj \<Rightarrow> (pjs ?s)[ci' := npj])"
      "r' = (case res' of Inl e \<Rightarrow> Some (Returned (Some e)) | Inr npj \<Rightarrow> None)"
    by metis
  have ci: "ci' = ci" using a(1) b(1) by simp
  have e: "err' = None" "w1' = w1" using a(2) b(2) ci by (simp_all add: succeeding_def)
  have res: "res' = res" "w2' = w2" using a(3) b(3) ci e by simp_all
  have "t' = t\<lparr>trace := silence (trace t)\<rparr>"
  proof (rule aborter.equality)
    show "pjs t' = pjs (t\<lparr>trace := silence (trace t)\<rparr>)"
      using a(7) b(7) ci res by (simp split: sum.splits)
    show "dupes t' = dupes (t\<lparr>trace := silence (trace t)\<rparr>)" using a(6) b(6) ci by simp
    show "world t' = world (t\<lparr>trace := silence (trace t)\<rparr>)" using a(5) b(5) res by simp
    show "trace t' = trace (t\<lparr>trace := silence (trace t)\<rparr>)"
      using a(4) b(4) ci res e by (simp add: silence_append silence_block)
    show "aborter.more t' = aborter.more (t\<lparr>trace := silence (trace t)\<rparr>)" by simp
  qed
  moreover have "r' = r" using a(8) b(8) res by simp
  ultimately show ?thesis using it' by simp
qed

lemma iteration_blocks:
  assumes it: "iteration c p i s = (r, t)"
  shows "trace t = trace s \<or> (\<exists>b. trace t = trace s @ blocks [b])"
  using it
proof (cases rule: iteration_cases)
  case (repeat k prev)
  from iteration_repeat [OF repeat it] obtain ci err res where
    "trace t = trace s @ block ci (pjs s ! ci) err res"
    by metis
  then have "trace t = trace s @ blocks [(ci, pjs s ! ci, err, res)]"
    by (simp add: blocks_def)
  then show ?thesis by blast
qed simp_all

lemma blocks_append: "blocks (bs @ bs') = blocks bs @ blocks bs'"
  by (simp add: blocks_def)

lemma terminate_blocks:
  assumes run: "TerminateOlderPresubmitJobs c p ps w = (out, t)"
  shows "\<exists>bs. trace t = blocks bs"
proof -
  let ?P = "\<lambda>(i::nat) (s::'a aborter). \<exists>bs. trace s = blocks bs"
  have step: "?P i' s'" if "?P i s" "iteration c p i s = (r, s')" for i i' s s' r
  proof -
    from that(1) obtain bs where bs: "trace s = blocks bs" by blast
    from iteration_blocks [OF that(2)] show ?thesis
    proof
      assume "trace s' = trace s"
      then show ?thesis using bs by auto
    next
      assume "\<exists>b. trace s' = trace s @ blocks [b]"
      then obtain b where "trace s' = blocks (bs @ [b])" using bs by (auto simp: blocks_append)
      then show ?thesis by blast
    qed
  qed
  have "(out = Returned None \<and> ?P (length ps) t) \<or>
         (\<exists>j u. j < length ps \<and> ?P j u \<and> iteration c p j u = (Some out, t))"
  proof (rule scan_rule [where P = ?P and i = 0])
    show "scan c p (length ps) 0 \<lparr>pjs = ps, dupes = Map.empty, world = w, trace = []\<rparr> = (out, t)"
      using run by (simp add: TerminateOlderPresubmitJobs_def)
    have "[] = blocks []" by (simp add: blocks_def)
    then show "?P 0 \<lparr>pjs = ps, dupes = Map.empty, world = w, trace = []\<rparr>" by auto
    show "0 \<le> length ps" by simp
    show "\<And>i s s'. i < length ps \<Longrightarrow> ?P i s \<Longrightarrow> iteration c p i s = (None, s') \<Longrightarrow> ?P (Suc i) s'"
      using step by blast
  qed
  then show ?thesis using step by blast
qed

text \<open>
  C4. A failing cleanup callback changes nothing but the log: the call ends the same way,
  with the same slice, map and outside world and the same events, as with a callback that
  has the same effect and reports no error, except that the warnings are missing. Every
  cleanup call, failed or not, is followed by the state log line and the call of
  \<open>ReplaceProwJob\<close> for the completed, aborted copy of the same record; and an error that
  the call returns is the answer of its last \<open>ReplaceProwJob\<close> call. These calls are
  calls of the collaborators: the trace, replayed against the callback and the client from
  the initial outside world, gives the final one; for every record the callback was
  applied to, the client was applied to the name and the completed, aborted copy of that
  record; and the error returned is what the client answered.
\<close>

theorem cleanup_errors_ignored:
  assumes run: "TerminateOlderPresubmitJobs cleanup pjc ps w = (out, t)"
  shows "TerminateOlderPresubmitJobs (succeeding cleanup) pjc ps w =
           (out, t\<lparr>trace := silence (trace t)\<rparr>) \<and>
         (\<exists>bs. trace t = blocks bs) \<and>
         answered cleanup pjc w (trace t) = Some (world t) \<and>
         (\<forall>j pj. (j, pj) \<in> set (cleanupCalls (trace t)) \<longrightarrow>
            (\<exists>err w0 w1. cleanup pj w0 = (err, w1) \<and> CleanupCall j pj err \<in> set (trace t)) \<and>
            (\<exists>res w0 w1. pjc (Name (ObjectMeta pj)) (aborted pj) w0 = (res, w1) \<and>
               ReplaceCall j (Name (ObjectMeta pj)) (aborted pj) res \<in> set (trace t))) \<and>
         (\<forall>e. out = Returned (Some e) \<longrightarrow>
            (\<exists>tr j name arg w0 w1. trace t = tr @ [ReplaceCall j name arg (Inl e)] \<and>
               pjc name arg w0 = (Inl e, w1)))"
proof (intro conjI allI impI)
  let ?s0 = "\<lparr>pjs = ps, dupes = Map.empty, world = w, trace = []\<rparr>"
  let ?R = "\<lambda>(s::'a aborter) s'. s' = s\<lparr>trace := silence (trace s)\<rparr>"
  have "\<exists>t'. scan (succeeding cleanup) pjc (length ps) 0 ?s0 =
           (fst (scan cleanup pjc (length ps) 0 ?s0), t') \<and>
         ?R (snd (scan cleanup pjc (length ps) 0 ?s0)) t'"
  proof (rule scan_sim [where R = ?R])
    show "?s0 = ?s0\<lparr>trace := silence (trace ?s0)\<rparr>" by simp
    show "\<exists>t'. iteration (succeeding cleanup) pjc i s' = (r, t') \<and> ?R t t'"
      if "?R s s'" "iteration cleanup pjc i s = (r, t)" for i s s' r t
      using iteration_succeeding [OF that(2)] that(1) by simp
  qed
  then show "TerminateOlderPresubmitJobs (succeeding cleanup) pjc ps w =
           (out, t\<lparr>trace := silence (trace t)\<rparr>)"
    using run by (simp add: TerminateOlderPresubmitJobs_def)
  show "\<exists>bs. trace t = blocks bs" by (rule terminate_blocks [OF run])
  show ans: "answered cleanup pjc w (trace t) = Some (world t)"
    by (rule terminate_answered [OF run])
  note st = terminate_settled [OF run]
  show "\<exists>err w0 w1. cleanup pj w0 = (err, w1) \<and> CleanupCall j pj err \<in> set (trace t)"
    if "(j, pj) \<in> set (cleanupCalls (trace t))" for j pj
    by (rule answered_cleanup [OF ans that])
  show "\<exists>res w0 w1. pjc (Name (ObjectMeta pj)) (aborted pj) w0 = (res, w1) \<and>
               ReplaceCall j (Name (ObjectMeta pj)) (aborted pj) res \<in> set (trace t)"
    if c: "(j, pj) \<in> set (cleanupCalls (trace t))" for j pj
  proof -
    from c have jc: "j \<in> set (cancelled (trace t))" and pj: "pj = ps ! j"
      unfolding settledD(5) [OF st] by auto
    then have "(j, Name (ObjectMeta pj), aborted pj) \<in>
        set (map (\<lambda>(j, name, arg, res). (j, name, arg)) (replaceCalls (trace t)))"
      unfolding settledD(6) [OF st] by simp
    then obtain res where r: "(j, Name (ObjectMeta pj), aborted pj, res) \<in> set (replaceCalls (trace t))"
      by auto
    from answered_replace [OF ans r] obtain w0 w1 where
      "pjc (Name (ObjectMeta pj)) (aborted pj) w0 = (res, w1)" by blast
    moreover have "ReplaceCall j (Name (ObjectMeta pj)) (aborted pj) res \<in> set (trace t)"
      using r by (rule replaceCalls_event)
    ultimately show ?thesis by blast
  qed
  show "\<exists>tr j name arg w0 w1. trace t = tr @ [ReplaceCall j name arg (Inl e)] \<and>
               pjc name arg w0 = (Inl e, w1)"
    if out: "out = Returned (Some e)" for e
  proof (rule terminate_failed [OF run [unfolded out]])
    fix ci err and u :: "'a aborter"
    assume tr: "trace t = trace u @ block ci (ps ! ci) err (Inl e)"
    obtain pre where "block ci (ps ! ci) err (Inl e) =
        pre @ [ReplaceCall ci (Name (ObjectMeta (ps ! ci))) (aborted (ps ! ci)) (Inl e)]"
      using block_last by blast
    then have last: "trace t = (trace u @ pre) @
        [ReplaceCall ci (Name (ObjectMeta (ps ! ci))) (aborted (ps ! ci)) (Inl e)]"
      using tr by simp
    have "(ci, Name (ObjectMeta (ps ! ci)), aborted (ps ! ci), Inl e) \<in> set (replaceCalls (trace t))"
      by (simp add: tr replaceCalls_append replaceCalls_block)
    from answered_replace [OF ans this] obtain w0 w1 where
      "pjc (Name (ObjectMeta (ps ! ci))) (aborted (ps ! ci)) w0 = (Inl e, w1)" by blast
    then show ?thesis using last by blast
  qed
qed

theorem cleanup_errors_ignored_witness:
  "TerminateOlderPresubmitJobs (succeeding cleanupBroken) storeOk exampleJobs 0 =
     (fst (TerminateOlderPresubmitJobs cleanupBroken storeOk exampleJobs 0),
      (snd (TerminateOlderPresubmitJobs cleanupBroken storeOk exampleJobs 0))
        \<lparr>trace := silence (trace (snd (TerminateOlderPresubmitJobs cleanupBroken storeOk exampleJobs 0)))\<rparr>) \<and>
   fst (TerminateOlderPresubmitJobs cleanupBroken storeOk exampleJobs 0) = Returned None \<and>
   cleanupCalls (trace (snd (TerminateOlderPresubmitJobs cleanupBroken storeOk exampleJobs 0))) =
     [(1, exampleJobs ! 1), (3, exampleJobs ! 3)] \<and>
   map (State \<circ> Status) (pjs (snd (TerminateOlderPresubmitJobs cleanupBroken storeOk exampleJobs 0))) =
     [PendingState, AbortedState, PendingState, AbortedState] \<and>
   answered cleanupBroken storeOk 0
     (trace (snd (TerminateOlderPresubmitJobs cleanupBroken storeOk exampleJobs 0))) =
     Some (world (snd (TerminateOlderPresubmitJobs cleanupBroken storeOk exampleJobs 0))) \<and>
   world (snd (TerminateOlderPresubmitJobs cleanupBroken storeOk exampleJobs 0)) = 2 \<and>
   replaceCalls (trace (snd (TerminateOlderPresubmitJobs cleanupBroken storeOk exampleJobs 0))) =
     [(1, ''first'', aborted (exampleJobs ! 1), Inr (aborted (exampleJobs ! 1))),
      (3, ''third'', aborted (exampleJobs ! 3), Inr (aborted (exampleJobs ! 3)))]"
proof -
  have "world (snd (TerminateOlderPresubmitJobs cleanupBroken storeOk exampleJobs 0)) = 2"
    by (simp add: example_defs cleanupBroken_def scan.simps)
  moreover have "replaceCalls (trace (snd (TerminateOlderPresubmitJobs cleanupBroken storeOk exampleJobs 0))) =
     [(1, ''first'', aborted (exampleJobs ! 1), Inr (aborted (exampleJobs ! 1))),
      (3, ''third'', aborted (exampleJobs ! 3), Inr (aborted (exampleJobs ! 3)))]"
    by (simp add: example_defs cleanupBroken_def scan.simps aborted_def)
  moreover have "fst (TerminateOlderPresubmitJobs cleanupBroken storeOk exampleJobs 0) = Returned None"
    by (simp add: example_defs cleanupBroken_def scan.simps)
  moreover have "cleanupCalls (trace (snd (TerminateOlderPresubmitJobs cleanupBroken storeOk exampleJobs 0))) =
     [(1, exampleJobs ! 1), (3, exampleJobs ! 3)]"
    by (simp add: example_defs cleanupBroken_def scan.simps)
  moreover have "map (State \<circ> Status) (pjs (snd (TerminateOlderPresubmitJobs cleanupBroken storeOk exampleJobs 0))) =
     [PendingState, AbortedState, PendingState, AbortedState]"
    by (simp add: example_defs cleanupBroken_def scan.simps)
  ultimately show ?thesis
    using cleanup_errors_ignored [OF surjective_pairing, of cleanupBroken storeOk exampleJobs 0]
    by simp
qed

lemma same_candidate: "sameButState a b \<Longrightarrow> candidate b = candidate a"
  by (simp add: sameButState_def candidate_def Complete_def)

lemma same_identifier: "sameButState a b \<Longrightarrow> identifierOf b = identifierOf a"
  by (simp add: sameButState_def identifierOf_def split: list.splits)

lemma same_start: "sameButState a b \<Longrightarrow> StartTime (Status b) = StartTime (Status a)"
  by (simp add: sameButState_def)

lemma same_name: "sameButState a b \<Longrightarrow> Name (ObjectMeta b) = Name (ObjectMeta a)"
  by (simp add: sameButState_def)

lemma same_aborted:
  assumes "sameButState a b"
  shows "aborted b = aborted a"
proof -
  have "(Status b)\<lparr>Completed := True, State := AbortedState\<rparr> =
        (Status a)\<lparr>Completed := True, State := AbortedState\<rparr>"
    using assms by (intro ProwJobStatus.equality) (simp_all add: sameButState_def)
  then show ?thesis
    using assms unfolding aborted_def
    by (intro ProwJob.equality) (simp_all add: sameButState_def)
qed

lemma same_refl: "sameButState a a"
  by (simp add: sameButState_def)

lemma iteration_alike:
  assumes blind: "\<And>a b w. sameButState a b \<Longrightarrow> cleanup a w = cleanup b w"
    and i: "i < length (pjs s)" and al: "alike s s'"
    and it: "iteration cleanup p i s = (r, t)"
  shows "\<exists>t'. iteration cleanup p i s' = (r, t') \<and> alike t t' \<and> length (pjs t) = length (pjs s)"
proof -
  have l2: "list_all2 sameButState (pjs s) (pjs s')" using al by (simp add: alike_def)
  have len: "length (pjs s') = length (pjs s)" using l2 by (simp add: list_all2_lengthD)
  have nth: "sameButState (pjs s ! j) (pjs s' ! j)" if "j < length (pjs s)" for j
    using l2 that by (simp add: list_all2_nthD)
  have d: "dupes s' = dupes s" using al by (simp add: alike_def)
  have w: "world s' = world s" using al by (simp add: alike_def)
  note si = nth [OF i]
  from it show ?thesis
  proof (cases rule: iteration_cases)
    case skip
    then have "iteration cleanup p i s' = (None, s')"
      using same_candidate [OF si] by (simp add: iteration_skip)
    then show ?thesis using skip al by simp
  next
    case nopull
    then have "iteration cleanup p i s' = (Some Panicked, s')"
      using same_candidate [OF si] same_identifier [OF si] by (simp add: iteration_nopull)
    then show ?thesis using nopull al by simp
  next
    case (first k)
    then have "iteration cleanup p i s' = (None, s'\<lparr>dupes := (dupes s')(k \<mapsto> i)\<rparr>)"
      using same_candidate [OF si] same_identifier [OF si] d by (simp add: iteration_first)
    moreover have "alike (s\<lparr>dupes := (dupes s)(k \<mapsto> i)\<rparr>) (s'\<lparr>dupes := (dupes s')(k \<mapsto> i)\<rparr>)"
      using al by (simp add: alike_def)
    ultimately show ?thesis using first by simp
  next
    case (range k prev)
    then have "iteration cleanup p i s' = (Some Panicked, s')"
      using same_candidate [OF si] same_identifier [OF si] d len
      by (simp add: iteration_range)
    then show ?thesis using range al by simp
  next
    case (repeat k prev)
    note sp = nth [OF repeat(4)]
    obtain r' t' where it': "iteration cleanup p i s' = (r', t')"
      by (cases "iteration cleanup p i s'")
    from iteration_repeat [OF repeat it] obtain ci err w1 res w2 where
      a: "ci = (if StartTime (Status (pjs s ! prev)) < StartTime (Status (pjs s ! i)) then prev else i)"
        "cleanup (pjs s ! ci) (world s) = (err, w1)"
        "p (Name (ObjectMeta (pjs s ! ci))) (aborted (pjs s ! ci)) w1 = (res, w2)"
        "trace t = trace s @ block ci (pjs s ! ci) err res"
        "world t = w2"
        "dupes t = (if ci = i then dupes s else (dupes s)(k \<mapsto> i))"
        "pjs t = (case res of Inl e \<Rightarrow> pjs s | Inr npj \<Rightarrow> (pjs s)[ci := npj])"
        "r = (case res of Inl e \<Rightarrow> Some (Returned (Some e)) | Inr npj \<Rightarrow> None)"
      by metis
    have pre: "candidate (pjs s' ! i)" "identifierOf (pjs s' ! i) = Some k"
      "dupes s' k = Some prev" "prev < length (pjs s')"
      using repeat same_candidate [OF si] same_identifier [OF si] d len by simp_all
    from iteration_repeat [OF pre it'] obtain ci' err' w1' res' w2' where
      b: "ci' = (if StartTime (Status (pjs s' ! prev)) < StartTime (Status (pjs s' ! i)) then prev else i)"
        "cleanup (pjs s' ! ci') (world s') = (err', w1')"
        "p (Name (ObjectMeta (pjs s' ! ci'))) (aborted (pjs s' ! ci')) w1' = (res', w2')"
        "trace t' = trace s' @ block ci' (pjs s' ! ci') err' res'"
        "world t' = w2'"
        "dupes t' = (if ci' = i then dupes s' else (dupes s')(k \<mapsto> i))"
        "pjs t' = (case res' of Inl e \<Rightarrow> pjs s' | Inr npj \<Rightarrow> (pjs s')[ci' := npj])"
        "r' = (case res' of Inl e \<Rightarrow> Some (Returned (Some e)) | Inr npj \<Rightarrow> None)"
      by metis
    have ci: "ci' = ci" using a(1) b(1) same_start [OF si] same_start [OF sp] by simp
    have cil: "ci < length (pjs s)" using a(1) i repeat(4) by simp
    note sc = nth [OF cil]
    have e: "err' = err" "w1' = w1"
      using a(2) b(2) ci w blind [OF sc, of "world s"] by simp_all
    have res: "res' = res" "w2' = w2"
      using a(3) b(3) ci e same_name [OF sc] same_aborted [OF sc] by simp_all
    have 1: "list_all2 sameButState (pjs t) (pjs t')"
    proof (cases res)
      case (Inl x)
      then show ?thesis using a(7) b(7) res l2 by simp
    next
      case (Inr npj)
      then show ?thesis using a(7) b(7) res ci l2
        by (simp add: list_all2_update_cong same_refl)
    qed
    have 2: "dupes t' = dupes t" using a(6) b(6) ci d by simp
    have 3: "world t' = world t" using a(5) b(5) res by simp
    have 4: "replaceCalls (trace t') = replaceCalls (trace t)"
      using a(4) b(4) ci res al same_name [OF sc] same_aborted [OF sc]
      by (simp add: replaceCalls_append replaceCalls_block alike_def)
    have 5: "map fst (cleanupCalls (trace t')) = map fst (cleanupCalls (trace t))"
      using a(4) b(4) ci al
      by (simp add: cleanupCalls_append cleanupCalls_block alike_def)
    have "alike t t'" using 1 2 3 4 5 by (simp add: alike_def)
    moreover have "r' = r" using a(8) b(8) res by simp
    moreover have "length (pjs t) = length (pjs s)" using a(7) by (simp split: sum.splits)
    ultimately show ?thesis using it' by simp
  qed
qed

text \<open>
  C10. Every record handed to \<open>ReplaceProwJob\<close> is the input record of its slot with the
  completion flag set and the state \<open>AbortedState\<close>, under that record's name; nothing
  else differs. The events are the calls: each is an application of the client to that
  name and record with the answer of the event, and the trace replayed against the
  callback and the client gives the final outside world. The state the job had before only reaches the log and the cleanup
  callback: on an input that differs from this one in the states of the jobs alone, with a
  callback that does not look at the state, the call ends the same way, calls
  \<open>ReplaceProwJob\<close> with the same arguments and the same answers, cleans up the same
  slots, and leaves the same map, the same outside world and slots that again differ in
  the state alone.
\<close>

theorem abort_changes_two_fields:
  assumes run: "TerminateOlderPresubmitJobs cleanup pjc ps w = (out, t)"
  shows "(\<forall>x\<in>set (replaceCalls (trace t)). case x of (j, name, arg, res) \<Rightarrow>
            j < length ps \<and> name = Name (ObjectMeta (ps ! j)) \<and>
            arg = (ps ! j)\<lparr>Status := (Status (ps ! j))\<lparr>Completed := True, State := AbortedState\<rparr>\<rparr> \<and>
            (\<exists>w0 w1. pjc name arg w0 = (res, w1))) \<and>
         answered cleanup pjc w (trace t) = Some (world t) \<and>
         (\<forall>ps'. list_all2 sameButState ps ps' \<longrightarrow>
                (\<forall>a b w. sameButState a b \<longrightarrow> cleanup a w = cleanup b w) \<longrightarrow>
                fst (TerminateOlderPresubmitJobs cleanup pjc ps' w) = out \<and>
                alike t (snd (TerminateOlderPresubmitJobs cleanup pjc ps' w)))"
proof (intro conjI ballI allI impI)
  note st = terminate_settled [OF run]
  fix x assume x: "x \<in> set (replaceCalls (trace t))"
  obtain j name arg res where xe: "x = (j, name, arg, res)" by (cases x)
  have "(j, name, arg) \<in> set (map (\<lambda>(j, name, arg, res). (j, name, arg)) (replaceCalls (trace t)))"
    using x xe by force
  then have "(j, name, arg) \<in>
      set (map (\<lambda>j. (j, Name (ObjectMeta (ps ! j)), aborted (ps ! j))) (cancelled (trace t)))"
    unfolding settledD(6) [OF st] .
  then have "j \<in> set (cancelled (trace t))" "name = Name (ObjectMeta (ps ! j))"
    "arg = aborted (ps ! j)" by auto
  moreover have "\<exists>w0 w1. pjc name arg w0 = (res, w1)"
    using answered_replace [OF terminate_answered [OF run]] x xe by blast
  ultimately show "case x of (j, name, arg, res) \<Rightarrow>
            j < length ps \<and> name = Name (ObjectMeta (ps ! j)) \<and>
            arg = (ps ! j)\<lparr>Status := (Status (ps ! j))\<lparr>Completed := True, State := AbortedState\<rparr>\<rparr> \<and>
            (\<exists>w0 w1. pjc name arg w0 = (res, w1))"
    using settledD(3) [OF st] xe by (simp add: aborted_def)
next
  show "answered cleanup pjc w (trace t) = Some (world t)"
    by (rule terminate_answered [OF run])
next
  fix ps'
  assume same: "list_all2 sameButState ps ps'"
    and blind: "\<forall>a b w. sameButState a b \<longrightarrow> cleanup a w = cleanup b w"
  let ?s0 = "\<lparr>pjs = ps, dupes = Map.empty, world = w, trace = []\<rparr>"
  let ?s0' = "\<lparr>pjs = ps', dupes = Map.empty, world = w, trace = []\<rparr>"
  let ?R = "\<lambda>(s::'a aborter) s'. length (pjs s) = length ps \<and> alike s s'"
  have len: "length ps' = length ps" using same by (simp add: list_all2_lengthD)
  have "\<exists>t'. scan cleanup pjc (length ps) 0 ?s0' =
           (fst (scan cleanup pjc (length ps) 0 ?s0), t') \<and>
         ?R (snd (scan cleanup pjc (length ps) 0 ?s0)) t'"
  proof (rule scan_sim [where R = ?R])
    show "?R ?s0 ?s0'" using same by (simp add: alike_def)
    show "\<exists>t'. iteration cleanup pjc i s' = (r, t') \<and> ?R t t'"
      if "i < length ps" "?R s s'" "iteration cleanup pjc i s = (r, t)" for i s s' r t
    proof -
      have i: "i < length (pjs s)" using that(1,2) by simp
      have al: "alike s s'" using that(2) by simp
      have b: "\<And>a b w. sameButState a b \<Longrightarrow> cleanup a w = cleanup b w"
        using blind by blast
      from iteration_alike [OF b i al that(3)] that(2)
      show ?thesis by auto
    qed
  qed
  then have "fst (TerminateOlderPresubmitJobs cleanup pjc ps' w) = out \<and>
      alike t (snd (TerminateOlderPresubmitJobs cleanup pjc ps' w))"
    using run len by (auto simp: TerminateOlderPresubmitJobs_def)
  then show "fst (TerminateOlderPresubmitJobs cleanup pjc ps' w) = out"
    and "alike t (snd (TerminateOlderPresubmitJobs cleanup pjc ps' w))"
    by simp_all
qed

theorem abort_changes_two_fields_witness:
  "fst (TerminateOlderPresubmitJobs cleanupOk storeOk exampleJobsFailing 0) =
     fst (TerminateOlderPresubmitJobs cleanupOk storeOk exampleJobs 0) \<and>
   alike (snd (TerminateOlderPresubmitJobs cleanupOk storeOk exampleJobs 0))
     (snd (TerminateOlderPresubmitJobs cleanupOk storeOk exampleJobsFailing 0)) \<and>
   replaceCalls (trace (snd (TerminateOlderPresubmitJobs cleanupOk storeOk exampleJobs 0))) =
     [(1, ''first'', aborted (exampleJobs ! 1), Inr (aborted (exampleJobs ! 1))),
      (3, ''third'', aborted (exampleJobs ! 3), Inr (aborted (exampleJobs ! 3)))] \<and>
   State (Status (exampleJobs ! 1)) \<noteq> State (Status (exampleJobsFailing ! 1)) \<and>
   answered cleanupOk storeOk 0
     (trace (snd (TerminateOlderPresubmitJobs cleanupOk storeOk exampleJobs 0))) =
     Some (world (snd (TerminateOlderPresubmitJobs cleanupOk storeOk exampleJobs 0))) \<and>
   world (snd (TerminateOlderPresubmitJobs cleanupOk storeOk exampleJobs 0)) = 2 \<and>
   storeOk ''first'' (aborted (exampleJobs ! 1)) 0 = (Inr (aborted (exampleJobs ! 1)), 1) \<and>
   storeOk ''third'' (aborted (exampleJobs ! 3)) 1 = (Inr (aborted (exampleJobs ! 3)), 2)"
proof -
  have w: "world (snd (TerminateOlderPresubmitJobs cleanupOk storeOk exampleJobs 0)) = 2"
    by (simp add: example_defs scan.simps)
  have st: "storeOk ''first'' (aborted (exampleJobs ! 1)) 0 = (Inr (aborted (exampleJobs ! 1)), 1)"
    "storeOk ''third'' (aborted (exampleJobs ! 3)) 1 = (Inr (aborted (exampleJobs ! 3)), 2)"
    by (simp_all add: storeOk_def)
  have same: "list_all2 sameButState exampleJobs exampleJobsFailing"
    by (simp add: exampleJobs_def exampleJobsFailing_def sameButState_def)
  have blind: "\<forall>a b w. sameButState a b \<longrightarrow> cleanupOk a w = cleanupOk b w"
    by (simp add: cleanupOk_def)
  have calls: "replaceCalls (trace (snd (TerminateOlderPresubmitJobs cleanupOk storeOk exampleJobs 0))) =
     [(1, ''first'', aborted (exampleJobs ! 1), Inr (aborted (exampleJobs ! 1))),
      (3, ''third'', aborted (exampleJobs ! 3), Inr (aborted (exampleJobs ! 3)))]"
    by (simp add: example_defs scan.simps aborted_def)
  have diff: "State (Status (exampleJobs ! 1)) \<noteq> State (Status (exampleJobsFailing ! 1))"
    by (simp add: exampleJobs_def exampleJobsFailing_def examplePresubmit_def)
  show ?thesis
    using abort_changes_two_fields [OF surjective_pairing, of cleanupOk storeOk exampleJobs 0]
      same blind calls diff w st
    by blast
qed

section \<open>Properties of the skip plugin\<close>

















end
